theory Spec2Isabelle
  imports Main
begin

section \<open>Machine arithmetic\<close>

text \<open>
  \<^verbatim>\<open>size_t\<close> is an unsigned 64-bit integer. Sizes, counters and addresses are modelled as
  \<^typ>\<open>nat\<close>; where a \<^verbatim>\<open>size_t\<close> expression can leave the 64-bit range on a value the
  caller chooses (a requested size, a geometry parameter), the wrap-around is written out
  with the two helpers below. Event counters (hits, misses, the logical clock) and block
  sizes bounded by the arena are kept exact: they cannot wrap before \<open>2 ^ 64\<close> operations,
  respectively before the arena exceeds the address space.
\<close>

definition size_t_add :: "nat \<Rightarrow> nat \<Rightarrow> nat" where
  "size_t_add a b = (a + b) mod 2 ^ 64"

definition size_t_sub :: "nat \<Rightarrow> nat \<Rightarrow> nat" where
  "size_t_sub a b = (a mod 2 ^ 64 + (2 ^ 64 - b mod 2 ^ 64)) mod 2 ^ 64"

definition size_t_mul :: "nat \<Rightarrow> nat \<Rightarrow> nat" where
  "size_t_mul a b = (a * b) mod 2 ^ 64"

section \<open>The cache hierarchy (cache/CacheSimulator.h, cache/CacheSimulator.cpp)\<close>

subsection \<open>Data\<close>

datatype ReplacementPolicy = FIFO | LRU | LFU

record CacheBlock =
  valid :: bool
  tag :: nat
  load_time :: nat
  last_access :: nat
  access_count :: nat

record CacheSet =
  blocks :: "CacheBlock list"
  associativity :: nat
  fifoQueue :: "nat list"
  lruList :: "nat list"

text \<open>
  The fields \<^verbatim>\<open>size\<close> and \<^verbatim>\<open>associativity\<close> of \<^verbatim>\<open>CacheLevel\<close> are named \<open>level_size\<close> and
  \<open>level_associativity\<close> here (\<open>size\<close> is a constant of HOL, \<open>associativity\<close> is the field
  of \<^verbatim>\<open>CacheSet\<close>).
\<close>

record CacheLevel =
  level_size :: nat
  block_size :: nat
  level_associativity :: nat
  num_sets :: nat
  set_index_bits :: nat
  block_offset_bits :: nat
  tag_bits :: nat
  policy :: ReplacementPolicy
  levelNum :: int
  sets :: "CacheSet list"
  hits :: nat
  misses :: nat
  evictions :: nat
  global_time :: nat

record CacheAccessReport =
  l1Hit :: bool
  l2Hit :: bool
  l2Accessed :: bool
  events :: "string list"

record CacheSimulator =
  l1_cache :: CacheLevel
  l2_cache :: CacheLevel
  defaultPolicy :: ReplacementPolicy

subsection \<open>Construction\<close>

text \<open>
  \<^verbatim>\<open>static_cast<size_t>(std::log2(x))\<close>: the integer part of the binary logarithm, for
  \<open>x \<ge> 1\<close>. (The source computes it in double precision; the two agree for every \<open>x\<close> that
  a double represents exactly, in particular below \<open>2 ^ 53\<close>.) For \<open>x = 0\<close> the source
  converts minus infinity to \<^verbatim>\<open>size_t\<close>, which C++ leaves undefined; \<open>initCacheLevel\<close>
  below returns \<open>None\<close> there and never evaluates \<open>log2_floor 0\<close>.
\<close>

fun log2_floor :: "nat \<Rightarrow> nat" where
  "log2_floor n = (if n < 2 then 0 else Suc (log2_floor (n div 2)))"

declare log2_floor.simps [simp del]

definition empty_block :: CacheBlock where
  "empty_block = \<lparr>valid = False, tag = 0, load_time = 0, last_access = 0, access_count = 0\<rparr>"

text \<open>
  \<^verbatim>\<open>initCacheLevel\<close>. The source has no check of the geometry and no error path. The two
  \<open>None\<close> results stand for undefined behaviour of the C++ program, not for a reported
  error: the integer division by zero in \<^verbatim>\<open>size / (block_size * associativity)\<close>, and
  \<^verbatim>\<open>std::log2(0)\<close> converted to \<^verbatim>\<open>size_t\<close> when \<open>num_sets = 0\<close>.
\<close>

definition initCacheLevel ::
  "int \<Rightarrow> nat \<Rightarrow> nat \<Rightarrow> nat \<Rightarrow> ReplacementPolicy \<Rightarrow> CacheLevel option" where
  "initCacheLevel lvl sz bsz assoc pol =
     (let d = size_t_mul bsz assoc in
      if d = 0 then None
      else
        let ns = sz div d in
        if ns = 0 then None
        else
          let obits = log2_floor bsz;
              ibits = log2_floor ns
          in Some \<lparr>level_size = sz, block_size = bsz, level_associativity = assoc,
                   num_sets = ns, set_index_bits = ibits, block_offset_bits = obits,
                   tag_bits = size_t_sub (size_t_sub 64 ibits) obits,
                   policy = pol, levelNum = lvl,
                   sets = replicate ns
                     \<lparr>blocks = replicate assoc empty_block, associativity = assoc,
                      fifoQueue = [], lruList = []\<rparr>,
                   hits = 0, misses = 0, evictions = 0, global_time = 0\<rparr>)"

text \<open>The constructor \<^verbatim>\<open>CacheSimulator::CacheSimulator\<close>: L1 first, then L2.\<close>

definition CacheSimulator_new ::
  "nat \<Rightarrow> nat \<Rightarrow> nat \<Rightarrow> nat \<Rightarrow> nat \<Rightarrow> nat \<Rightarrow> ReplacementPolicy \<Rightarrow> CacheSimulator option" where
  "CacheSimulator_new l1_size l1_block_size l1_associativity
                      l2_size l2_block_size l2_associativity pol =
     (case initCacheLevel 1 l1_size l1_block_size l1_associativity pol of
        None \<Rightarrow> None
      | Some l1 \<Rightarrow>
          (case initCacheLevel 2 l2_size l2_block_size l2_associativity pol of
             None \<Rightarrow> None
           | Some l2 \<Rightarrow> Some \<lparr>l1_cache = l1, l2_cache = l2, defaultPolicy = pol\<rparr>))"

subsection \<open>Address decoding\<close>

text \<open>
  \<^verbatim>\<open>(address >> k) & ((1ULL << b) - 1)\<close> on unsigned values is \<open>(address div 2 ^ k) mod 2 ^ b\<close>.
\<close>

definition extractTag :: "CacheLevel \<Rightarrow> nat \<Rightarrow> nat" where
  "extractTag level address =
     (address div 2 ^ (set_index_bits level + block_offset_bits level)) mod 2 ^ tag_bits level"

definition extractSetIndex :: "CacheLevel \<Rightarrow> nat \<Rightarrow> nat" where
  "extractSetIndex level address =
     (address div 2 ^ block_offset_bits level) mod 2 ^ set_index_bits level"

definition extractBlockOffset :: "CacheLevel \<Rightarrow> nat \<Rightarrow> nat" where
  "extractBlockOffset level address = address mod 2 ^ block_offset_bits level"

subsection \<open>Replacement policies\<close>

text \<open>
  The policies work on one \<^verbatim>\<open>CacheSet&\<close>; the model returns the set they leave. Reading
  \<^verbatim>\<open>blocks[0]\<close> of an empty vector or the front of an empty queue is undefined in C++:
  \<open>None\<close>.
\<close>

definition findVictimFIFO :: "CacheSet \<Rightarrow> (nat \<times> CacheSet) option" where
  "findVictimFIFO cset =
     (let q = (if fifoQueue cset = [] then [0..<length (blocks cset)] else fifoQueue cset)
      in case q of
           [] \<Rightarrow> None
         | victim # rest \<Rightarrow> Some (victim, cset\<lparr>fifoQueue := rest @ [victim]\<rparr>))"

text \<open>The loop of \<^verbatim>\<open>findVictimLRU\<close> over \<open>i = 1, 2, ...\<close>: the remaining blocks, \<open>i\<close>, the
  victim and the oldest time so far.\<close>

fun lru_scan :: "CacheBlock list \<Rightarrow> nat \<Rightarrow> nat \<Rightarrow> nat \<Rightarrow> nat" where
  "lru_scan [] i victim oldest_time = victim"
| "lru_scan (b # bs) i victim oldest_time =
     (if last_access b < oldest_time then lru_scan bs (Suc i) i (last_access b)
      else lru_scan bs (Suc i) victim oldest_time)"

definition findVictimLRU :: "CacheSet \<Rightarrow> (nat \<times> CacheSet) option" where
  "findVictimLRU cset =
     (case blocks cset of
        [] \<Rightarrow> None
      | b # bs \<Rightarrow>
          let victim = lru_scan bs 1 0 (last_access b)
          in Some (victim, cset\<lparr>lruList := removeAll victim (lruList cset) @ [victim]\<rparr>))"

fun lfu_scan :: "CacheBlock list \<Rightarrow> nat \<Rightarrow> nat \<Rightarrow> nat \<Rightarrow> nat" where
  "lfu_scan [] i victim min_count = victim"
| "lfu_scan (b # bs) i victim min_count =
     (if access_count b < min_count then lfu_scan bs (Suc i) i (access_count b)
      else lfu_scan bs (Suc i) victim min_count)"

definition findVictimLFU :: "CacheSet \<Rightarrow> (nat \<times> CacheSet) option" where
  "findVictimLFU cset =
     (case blocks cset of
        [] \<Rightarrow> None
      | b # bs \<Rightarrow> Some (lfu_scan bs 1 0 (access_count b), cset))"

text \<open>
  \<^verbatim>\<open>updateReplacementData(level, set, block_index, policy)\<close> reads \<^verbatim>\<open>level.global_time\<close> and
  writes the set. Its callers pass an index below \<^verbatim>\<open>set.blocks.size()\<close>.
\<close>

definition updateReplacementData ::
  "CacheLevel \<Rightarrow> CacheSet \<Rightarrow> nat \<Rightarrow> ReplacementPolicy \<Rightarrow> CacheSet" where
  "updateReplacementData level cset block_index pol =
     (case pol of
        FIFO \<Rightarrow> cset
      | LRU \<Rightarrow>
          cset\<lparr>lruList := removeAll block_index (lruList cset) @ [block_index],
               blocks := (blocks cset)
                 [block_index := (blocks cset ! block_index)\<lparr>last_access := global_time level\<rparr>]\<rparr>
      | LFU \<Rightarrow>
          cset\<lparr>blocks := (blocks cset)
                 [block_index := (blocks cset ! block_index)
                    \<lparr>access_count := access_count (blocks cset ! block_index) + 1\<rparr>]\<rparr>)"

subsection \<open>Eviction events\<close>

definition digit_char :: "nat \<Rightarrow> char" where
  "digit_char d = ''0123456789abcdef'' ! d"

function show_base :: "nat \<Rightarrow> nat \<Rightarrow> string" where
  "show_base b n =
     (if b < 2 \<or> n < b then [digit_char n] else show_base b (n div b) @ [digit_char (n mod b)])"
  by pat_completeness auto
termination
  by (relation "measure snd") auto

declare show_base.simps [simp del]

definition show_int :: "int \<Rightarrow> string" where
  "show_int i = (if i < 0 then CHR ''-'' # show_base 10 (nat (- i)) else show_base 10 (nat i))"

text \<open>
  \<^verbatim>\<open>ss << "L" << level.levelNum << " Eviction: Tag 0x" << std::hex << tag << std::dec
     << " (Set " << set_index << ")"\<close>
\<close>

definition eviction_event :: "int \<Rightarrow> nat \<Rightarrow> nat \<Rightarrow> string" where
  "eviction_event lvl old_tag set_index =
     ''L'' @ show_int lvl @ '' Eviction: Tag 0x'' @ show_base 16 old_tag
       @ '' (Set '' @ show_base 10 set_index @ '')''"

subsection \<open>One access to one level\<close>

text \<open>The hit loop: the first index \<open>i\<close> with \<^verbatim>\<open>blocks[i].valid && blocks[i].tag == tag\<close>.\<close>

fun find_tag :: "CacheBlock list \<Rightarrow> nat \<Rightarrow> nat \<Rightarrow> nat option" where
  "find_tag [] tg i = None"
| "find_tag (b # bs) tg i = (if valid b \<and> tag b = tg then Some i else find_tag bs tg (Suc i))"

text \<open>The slot loop: the first index \<open>i\<close> with \<^verbatim>\<open>!blocks[i].valid\<close>.\<close>

fun find_invalid :: "CacheBlock list \<Rightarrow> nat \<Rightarrow> nat option" where
  "find_invalid [] i = None"
| "find_invalid (b # bs) i = (if \<not> valid b then Some i else find_invalid bs (Suc i))"

definition findVictim :: "ReplacementPolicy \<Rightarrow> CacheSet \<Rightarrow> (nat \<times> CacheSet) option" where
  "findVictim pol cset =
     (case pol of FIFO \<Rightarrow> findVictimFIFO cset | LRU \<Rightarrow> findVictimLRU cset
      | LFU \<Rightarrow> findVictimLFU cset)"

text \<open>
  The part of \<^verbatim>\<open>accessLevel\<close> after \<^verbatim>\<open>if (!allocate) return false;\<close>: choose the slot, log the
  eviction, load the block, update the replacement data. \<open>None\<close>: an index outside
  \<^verbatim>\<open>set.blocks\<close> (undefined in C++).
\<close>

definition fill_level ::
  "CacheLevel \<Rightarrow> nat \<Rightarrow> nat \<Rightarrow> CacheAccessReport \<Rightarrow> (CacheLevel \<times> CacheAccessReport) option" where
  "fill_level level set_index tg report =
     (let cset = sets level ! set_index;
          victim_index =
            (case find_invalid (blocks cset) 0 of Some i \<Rightarrow> i | None \<Rightarrow> associativity cset)
      in
      case
        (if victim_index = associativity cset then
           (case findVictim (policy level) cset of
              None \<Rightarrow> None
            | Some (v, cset') \<Rightarrow>
                if v < length (blocks cset') then
                  Some (v, cset', level\<lparr>evictions := evictions level + 1\<rparr>,
                        report\<lparr>events := events report @
                          [eviction_event (levelNum level) (tag (blocks cset' ! v)) set_index]\<rparr>)
                else None)
         else Some (victim_index, cset, level, report))
      of
        None \<Rightarrow> None
      | Some (v, cset1, level1, report1) \<Rightarrow>
          if v < length (blocks cset1) then
            let current_time = global_time level1;
                cset2 = cset1\<lparr>blocks := (blocks cset1)
                  [v := (blocks cset1 ! v)\<lparr>valid := True, tag := tg, load_time := current_time,
                         last_access := current_time, access_count := 1\<rparr>]\<rparr>;
                cset3 = updateReplacementData level1 cset2 v (policy level1)
            in Some (level1\<lparr>sets := (sets level1)[set_index := cset3]\<rparr>, report1)
          else None)"

definition accessLevel ::
  "CacheLevel \<Rightarrow> nat \<Rightarrow> CacheAccessReport \<Rightarrow> bool \<Rightarrow> bool
     \<Rightarrow> (bool \<times> CacheLevel \<times> CacheAccessReport) option" where
  "accessLevel level0 physical_address report update_stats allocate =
     (let level = (if update_stats then level0\<lparr>global_time := global_time level0 + 1\<rparr>
                   else level0);
          tg = extractTag level physical_address;
          set_index = extractSetIndex level physical_address
      in
      if set_index \<ge> length (sets level) then Some (False, level, report)
      else
        let cset = sets level ! set_index in
        case find_tag (blocks cset) tg 0 of
          Some i \<Rightarrow>
            if update_stats then
              let level1 = level\<lparr>hits := hits level + 1\<rparr>;
                  cset1 = updateReplacementData level1 cset i (policy level1)
              in Some (True, level1\<lparr>sets := (sets level1)[set_index := cset1]\<rparr>, report)
            else Some (True, level, report)
        | None \<Rightarrow>
            let level1 = (if update_stats then level\<lparr>misses := misses level + 1\<rparr> else level)
            in
            if \<not> allocate then Some (False, level1, report)
            else
              (case fill_level level1 set_index tg report of
                 None \<Rightarrow> None
               | Some (level2, report2) \<Rightarrow> Some (False, level2, report2)))"

subsection \<open>The hierarchy\<close>

definition access :: "CacheSimulator \<Rightarrow> nat \<Rightarrow> (CacheAccessReport \<times> CacheSimulator) option" where
  "access sim physical_address =
     (let report0 = \<lparr>l1Hit = False, l2Hit = False, l2Accessed = False, events = []\<rparr> in
      case accessLevel (l1_cache sim) physical_address report0 True False of
        None \<Rightarrow> None
      | Some (h1, l1a, r1) \<Rightarrow>
          let report1 = r1\<lparr>l1Hit := h1\<rparr>; sim1 = sim\<lparr>l1_cache := l1a\<rparr> in
          if h1 then Some (report1, sim1)
          else
            (case accessLevel (l2_cache sim1) physical_address (report1\<lparr>l2Accessed := True\<rparr>)
                    True False of
               None \<Rightarrow> None
             | Some (h2, l2a, r2) \<Rightarrow>
                 let report2 = r2\<lparr>l2Hit := h2\<rparr>; sim2 = sim1\<lparr>l2_cache := l2a\<rparr> in
                 if h2 then
                   (case accessLevel (l1_cache sim2) physical_address report2 False True of
                      None \<Rightarrow> None
                    | Some (h, l1b, r3) \<Rightarrow> Some (r3, sim2\<lparr>l1_cache := l1b\<rparr>))
                 else
                   (case accessLevel (l2_cache sim2) physical_address report2 False True of
                      None \<Rightarrow> None
                    | Some (h, l2b, r3) \<Rightarrow>
                        (case accessLevel (l1_cache sim2) physical_address r3 False True of
                           None \<Rightarrow> None
                         | Some (h', l1b, r4) \<Rightarrow>
                             Some (r4, sim2\<lparr>l2_cache := l2b, l1_cache := l1b\<rparr>)))))"

definition setReplacementPolicy :: "CacheSimulator \<Rightarrow> ReplacementPolicy \<Rightarrow> CacheSimulator" where
  "setReplacementPolicy sim pol =
     sim\<lparr>defaultPolicy := pol,
         l1_cache := (l1_cache sim)\<lparr>policy := pol\<rparr>,
         l2_cache := (l2_cache sim)\<lparr>policy := pol\<rparr>\<rparr>"

definition setReplacementPolicyLevel ::
  "CacheSimulator \<Rightarrow> nat \<Rightarrow> ReplacementPolicy \<Rightarrow> CacheSimulator" where
  "setReplacementPolicyLevel sim level pol =
     (if level = 1 then sim\<lparr>l1_cache := (l1_cache sim)\<lparr>policy := pol\<rparr>\<rparr>
      else if level = 2 then sim\<lparr>l2_cache := (l2_cache sim)\<lparr>policy := pol\<rparr>\<rparr>
      else sim)"



subsection \<open>Sequences of operations, and the states the program can be in\<close>

text \<open>The invariants below are established by the constructor and kept by every operation
  of the class (lemmas \<open>sim_inv_new\<close>, \<open>access_step\<close>, \<open>reachable_cache_inv\<close>).\<close>

definition set_ok :: "CacheSet \<Rightarrow> bool" where
  "set_ok cs \<longleftrightarrow> blocks cs \<noteq> [] \<and> associativity cs = length (blocks cs)
     \<and> (\<forall>i \<in> set (fifoQueue cs). i < length (blocks cs))"

definition level_ok :: "CacheLevel \<Rightarrow> bool" where
  "level_ok L \<longleftrightarrow> 2 ^ set_index_bits L \<le> length (sets L) \<and> (\<forall>cs \<in> set (sets L). set_ok cs)"

definition tags_distinct :: "CacheBlock list \<Rightarrow> bool" where
  "tags_distinct bs \<longleftrightarrow>
     (\<forall>i < length bs. \<forall>j < length bs.
        valid (bs ! i) \<and> valid (bs ! j) \<and> tag (bs ! i) = tag (bs ! j) \<longrightarrow> i = j)"

definition level_inv :: "CacheLevel \<Rightarrow> bool" where
  "level_inv L \<longleftrightarrow> level_ok L
     \<and> (\<forall>cs \<in> set (sets L). tags_distinct (blocks cs)
           \<and> (\<forall>b \<in> set (blocks cs). last_access b \<le> global_time L))"

text \<open>Some valid line of the set addressed by \<open>a\<close> carries the tag of \<open>a\<close>.\<close>

definition holds_tag :: "CacheLevel \<Rightarrow> nat \<Rightarrow> bool" where
  "holds_tag L a \<longleftrightarrow>
     (\<exists>b \<in> set (blocks (sets L ! extractSetIndex L a)). valid b \<and> tag b = extractTag L a)"

text \<open>The line that holds the tag of \<open>a\<close> exists and has the largest \<open>last_access\<close> of its
  set.\<close>

definition mru_line :: "CacheLevel \<Rightarrow> nat \<Rightarrow> bool" where
  "mru_line L a \<longleftrightarrow>
     (let bs = blocks (sets L ! extractSetIndex L a); tg = extractTag L a in
      (\<exists>i < length bs. valid (bs ! i) \<and> tag (bs ! i) = tg) \<and>
      (\<forall>i < length bs. valid (bs ! i) \<and> tag (bs ! i) = tg \<longrightarrow>
         (\<forall>j < length bs. last_access (bs ! j) \<le> last_access (bs ! i))))"

text \<open>The line a fill leaves at the chosen slot.\<close>

definition filled_line :: "CacheLevel \<Rightarrow> nat \<Rightarrow> CacheBlock" where
  "filled_line L tg =
     \<lparr>valid = True, tag = tg, load_time = global_time L, last_access = global_time L,
      access_count = (if policy L = LFU then 2 else 1)\<rparr>"

definition same_geometry :: "CacheLevel \<Rightarrow> CacheLevel \<Rightarrow> bool" where
  "same_geometry L L' \<longleftrightarrow> set_index_bits L' = set_index_bits L
     \<and> block_offset_bits L' = block_offset_bits L \<and> tag_bits L' = tag_bits L
     \<and> policy L' = policy L \<and> levelNum L' = levelNum L \<and> length (sets L') = length (sets L)"

definition sim_inv :: "CacheSimulator \<Rightarrow> bool" where
  "sim_inv sim \<longleftrightarrow> level_inv (l1_cache sim) \<and> level_inv (l2_cache sim)"


text \<open>The simulators a client can hold: constructed, then used through the public
  operations.\<close>

inductive reachable_cache :: "CacheSimulator \<Rightarrow> bool" where
  constructed:
    "CacheSimulator_new s1 b1 a1 s2 b2 a2 pol = Some sim \<Longrightarrow> reachable_cache sim"
| accessed:
    "reachable_cache sim \<Longrightarrow> access sim a = Some (r, sim') \<Longrightarrow> reachable_cache sim'"
| policy_set:
    "reachable_cache sim \<Longrightarrow> reachable_cache (setReplacementPolicy sim pol)"
| level_policy_set:
    "reachable_cache sim \<Longrightarrow> reachable_cache (setReplacementPolicyLevel sim n pol)"

text \<open>A one-set, one-way hierarchy (16-byte caches with 16-byte blocks), used to instantiate
  the theorems.\<close>

definition tiny_level :: "ReplacementPolicy \<Rightarrow> int \<Rightarrow> CacheLevel" where
  "tiny_level pol n =
     \<lparr>level_size = 16, block_size = 16, level_associativity = 1, num_sets = 1,
      set_index_bits = 0, block_offset_bits = 4, tag_bits = 60, policy = pol, levelNum = n,
      sets = [\<lparr>blocks = [empty_block], associativity = 1, fifoQueue = [], lruList = []\<rparr>],
      hits = 0, misses = 0, evictions = 0, global_time = 0\<rparr>"

definition tiny_sim :: "ReplacementPolicy \<Rightarrow> CacheSimulator" where
  "tiny_sim pol = \<lparr>l1_cache = tiny_level pol 1, l2_cache = tiny_level pol 2, defaultPolicy = pol\<rparr>"

section \<open>The allocator (allocator/MemoryManager.h, allocator/MemoryManager.cpp)\<close>

subsection \<open>Data\<close>

text \<open>
  The arena is the byte vector \<^verbatim>\<open>physicalMemory\<close>; the program reads and writes it only
  through \<^verbatim>\<open>BlockHeader\<close> records placed at byte offsets. The model keeps, for every offset,
  the header last written there (all fields zero at first, as the vector is
  zero-initialised): a header that is no longer part of the block sequence stays readable,
  as in the program. Pointers into the arena are offsets from \<^verbatim>\<open>physicalMemory.data()\<close>;
  \<^verbatim>\<open>nullptr\<close> is \<open>None\<close>. Two headers closer to each other than \<^verbatim>\<open>sizeof(BlockHeader)\<close>
  would share bytes in the program; the model keeps them apart.

  \<^verbatim>\<open>sizeof(BlockHeader)\<close> depends on the platform (the repository's documentation says
  ``typically 32 bytes''); it is the parameter \<open>H\<close> of every function that uses it.

  The fields \<^verbatim>\<open>size\<close>, \<^verbatim>\<open>next\<close> and \<^verbatim>\<open>prev\<close> of \<^verbatim>\<open>BlockHeader\<close> are named \<open>size_h\<close>,
  \<open>next_h\<close> and \<open>prev_h\<close>.
\<close>

datatype AllocationStrategy = FIRST_FIT | BEST_FIT | WORST_FIT

record BlockHeader =
  size_h :: nat
  is_free :: bool
  block_id :: nat
  next_h :: "nat option"
  prev_h :: "nat option"

record MemoryManager =
  totalMemorySize :: nat
  currentStrategy :: AllocationStrategy
  physicalMemory :: "nat \<Rightarrow> BlockHeader"
  firstBlock :: "nat option"
  freeListHead :: "nat option"
  nextBlockId :: nat
  addressToHeader :: "nat \<rightharpoonup> nat"
  idToHeader :: "nat \<rightharpoonup> nat"
  idToRequestedSize :: "nat \<rightharpoonup> nat"
  allocationSuccessCount :: nat
  allocationFailureCount :: nat
  totalRequestedSize :: nat
  totalAllocatedSize :: nat

definition zero_header :: BlockHeader where
  "zero_header = \<lparr>size_h = 0, is_free = False, block_id = 0, next_h = None, prev_h = None\<rparr>"

subsection \<open>Construction\<close>

definition initializeMemory :: "MemoryManager \<Rightarrow> MemoryManager" where
  "initializeMemory m =
     m\<lparr>physicalMemory := (physicalMemory m)
          (0 := \<lparr>size_h = totalMemorySize m, is_free = True, block_id = 0,
                 next_h = None, prev_h = None\<rparr>),
       firstBlock := Some 0,
       freeListHead := Some 0,
       addressToHeader := (addressToHeader m)(0 \<mapsto> 0)\<rparr>"

text \<open>
  The constructor. For an arena smaller than one header, \<^verbatim>\<open>initializeMemory\<close> writes past
  the end of the vector (undefined in C++): \<open>None\<close>.
\<close>

definition MemoryManager_new :: "nat \<Rightarrow> nat \<Rightarrow> AllocationStrategy \<Rightarrow> MemoryManager option" where
  "MemoryManager_new H totalSize strategy =
     (if totalSize < H then None
      else Some (initializeMemory
        \<lparr>totalMemorySize = totalSize, currentStrategy = strategy,
         physicalMemory = (\<lambda>a. zero_header), firstBlock = None, freeListHead = None,
         nextBlockId = 1, addressToHeader = Map.empty, idToHeader = Map.empty,
         idToRequestedSize = Map.empty, allocationSuccessCount = 0,
         allocationFailureCount = 0, totalRequestedSize = 0, totalAllocatedSize = 0\<rparr>))"

subsection \<open>The free list\<close>

definition removeFromFreeList :: "MemoryManager \<Rightarrow> nat \<Rightarrow> MemoryManager" where
  "removeFromFreeList m block =
     (let mem0 = physicalMemory m;
          m1 = (case prev_h (mem0 block) of
                  Some p \<Rightarrow> m\<lparr>physicalMemory := mem0(p := (mem0 p)\<lparr>next_h := next_h (mem0 block)\<rparr>)\<rparr>
                | None \<Rightarrow> m\<lparr>freeListHead := next_h (mem0 block)\<rparr>);
          mem1 = physicalMemory m1;
          mem2 = (case next_h (mem1 block) of
                    Some n \<Rightarrow> mem1(n := (mem1 n)\<lparr>prev_h := prev_h (mem1 block)\<rparr>)
                  | None \<Rightarrow> mem1)
      in m1\<lparr>physicalMemory := mem2(block := (mem2 block)\<lparr>next_h := None, prev_h := None\<rparr>)\<rparr>)"

definition addToFreeList :: "MemoryManager \<Rightarrow> nat \<Rightarrow> MemoryManager" where
  "addToFreeList m block =
     (let m1 = (if prev_h (physicalMemory m block) \<noteq> None
                   \<or> next_h (physicalMemory m block) \<noteq> None
                   \<or> Some block = freeListHead m
                then removeFromFreeList m block else m);
          mem1 = physicalMemory m1;
          mem2 = mem1(block := (mem1 block)\<lparr>next_h := freeListHead m1, prev_h := None\<rparr>);
          mem3 = (case freeListHead m1 of
                    Some h \<Rightarrow> mem2(h := (mem2 h)\<lparr>prev_h := Some block\<rparr>)
                  | None \<Rightarrow> mem2)
      in m1\<lparr>physicalMemory := mem3, freeListHead := Some block\<rparr>)"

subsection \<open>Placement\<close>

text \<open>
  \<^verbatim>\<open>findFirstFit\<close> and \<^verbatim>\<open>findWorstFit\<close> follow \<^verbatim>\<open>next\<close> until \<^verbatim>\<open>nullptr\<close>, with no bound: on
  a cyclic list they do not return (\<open>None\<close>); \<open>Some r\<close> is the returned pointer \<open>r\<close>.
\<close>

partial_function (option) firstFit_loop ::
  "(nat \<Rightarrow> BlockHeader) \<Rightarrow> nat \<Rightarrow> nat option \<Rightarrow> nat option option" where
  "firstFit_loop mem sz current =
     (case current of
        None \<Rightarrow> Some None
      | Some c \<Rightarrow>
          if is_free (mem c) \<and> size_h (mem c) \<ge> sz then Some (Some c)
          else firstFit_loop mem sz (next_h (mem c)))"

declare firstFit_loop.simps [code]

definition findFirstFit :: "MemoryManager \<Rightarrow> nat \<Rightarrow> nat option option" where
  "findFirstFit m sz = firstFit_loop (physicalMemory m) sz (freeListHead m)"

text \<open>The condition under which \<^verbatim>\<open>findBestFit\<close> replaces \<^verbatim>\<open>best\<close> by \<^verbatim>\<open>current\<close>.\<close>

definition better_fit :: "(nat \<Rightarrow> BlockHeader) \<Rightarrow> nat \<Rightarrow> nat option \<Rightarrow> nat \<Rightarrow> nat option" where
  "better_fit mem sz best c =
     (if is_free (mem c) \<and> size_h (mem c) \<ge> sz then
        (case best of
           None \<Rightarrow> Some c
         | Some b \<Rightarrow> if size_h (mem c) < size_h (mem b) then Some c else best)
      else best)"

text \<open>The loop of \<^verbatim>\<open>findBestFit\<close>, with its bound of 10000 iterations; the result is
  \<^verbatim>\<open>best\<close> and the number of iterations made.\<close>

function bestFit_loop ::
  "(nat \<Rightarrow> BlockHeader) \<Rightarrow> nat \<Rightarrow> nat option \<Rightarrow> nat option \<Rightarrow> nat \<Rightarrow> nat option \<times> nat" where
  "bestFit_loop mem sz best current iterations =
     (case current of
        None \<Rightarrow> (best, iterations)
      | Some c \<Rightarrow>
          if iterations < 10000 then
            bestFit_loop mem sz (better_fit mem sz best c) (next_h (mem c)) (iterations + 1)
          else (best, iterations))"
  by pat_completeness auto
termination
  by (relation "measure (\<lambda>(mem, sz, best, current, iterations). 10000 - iterations)") auto

declare bestFit_loop.simps [simp del]

definition findBestFit :: "MemoryManager \<Rightarrow> nat \<Rightarrow> nat option" where
  "findBestFit m sz = fst (bestFit_loop (physicalMemory m) sz None (freeListHead m) 0)"

definition worse_fit :: "(nat \<Rightarrow> BlockHeader) \<Rightarrow> nat \<Rightarrow> nat option \<Rightarrow> nat \<Rightarrow> nat option" where
  "worse_fit mem sz worst c =
     (if is_free (mem c) \<and> size_h (mem c) \<ge> sz then
        (case worst of
           None \<Rightarrow> Some c
         | Some w \<Rightarrow> if size_h (mem c) > size_h (mem w) then Some c else worst)
      else worst)"

partial_function (option) worstFit_loop ::
  "(nat \<Rightarrow> BlockHeader) \<Rightarrow> nat \<Rightarrow> nat option \<Rightarrow> nat option \<Rightarrow> nat option option" where
  "worstFit_loop mem sz current worst =
     (case current of
        None \<Rightarrow> Some worst
      | Some c \<Rightarrow> worstFit_loop mem sz (next_h (mem c)) (worse_fit mem sz worst c))"

declare worstFit_loop.simps [code]

definition findWorstFit :: "MemoryManager \<Rightarrow> nat \<Rightarrow> nat option option" where
  "findWorstFit m sz = worstFit_loop (physicalMemory m) sz (freeListHead m) None"

subsection \<open>Splitting and coalescing\<close>

definition splitBlock :: "nat \<Rightarrow> MemoryManager \<Rightarrow> nat \<Rightarrow> nat \<Rightarrow> MemoryManager" where
  "splitBlock H m block requestedSize =
     (let mem0 = physicalMemory m;
          remainingSize = size_t_sub (size_h (mem0 block)) requestedSize
      in
      if remainingSize < H + 8 then m
      else
        let newBlock = block + requestedSize;
            mem1 = mem0(newBlock := (mem0 newBlock)
                     \<lparr>size_h := remainingSize, is_free := True, block_id := 0\<rparr>);
            mem2 = mem1(block := (mem1 block)\<lparr>size_h := requestedSize\<rparr>)
        in addToFreeList (m\<lparr>physicalMemory := mem2\<rparr>) newBlock)"

text \<open>
  The search of \<^verbatim>\<open>coalesceBlocks\<close> for the block that ends where \<^verbatim>\<open>block\<close> starts: a walk
  over the physical blocks from \<^verbatim>\<open>firstBlock\<close>, at most 10000 steps.
\<close>

function find_prev ::
  "(nat \<Rightarrow> BlockHeader) \<Rightarrow> nat \<Rightarrow> nat \<Rightarrow> nat option \<Rightarrow> nat \<Rightarrow> nat option" where
  "find_prev mem tot block current iterations =
     (case current of
        None \<Rightarrow> None
      | Some c \<Rightarrow>
          if c \<noteq> block \<and> iterations < 10000 then
            let currentEnd = c + size_h (mem c) in
            if currentEnd = block then Some c
            else if currentEnd < tot then
              find_prev mem tot block (Some currentEnd) (iterations + 1)
            else None
          else None)"
  by pat_completeness auto
termination
  by (relation "measure (\<lambda>(mem, tot, block, current, iterations). 10000 - iterations)") auto

declare find_prev.simps [simp del]

lemma find_prev_less: "find_prev mem tot block current iterations = Some p \<Longrightarrow> p < block"
proof (induction mem tot block current iterations rule: find_prev.induct)
  case (1 mem tot block current iterations)
  show ?case
  proof (cases current)
    case None
    with "1.prems" show ?thesis by (simp add: find_prev.simps)
  next
    case (Some c)
    show ?thesis
    proof (cases "c \<noteq> block \<and> iterations < 10000")
      case False
      with Some "1.prems" show ?thesis by (auto simp: find_prev.simps [of _ _ _ "Some c"])
    next
      case True
      show ?thesis
      proof (cases "c + size_h (mem c) = block")
        case e: True
        with True Some "1.prems" have "p = c"
          by (simp add: find_prev.simps [of _ _ _ "Some c"])
        with e True show ?thesis by auto
      next
        case ne: False
        show ?thesis
        proof (cases "c + size_h (mem c) < tot")
          case lt: True
          with ne True Some "1.prems"
          have "find_prev mem tot block (Some (c + size_h (mem c))) (iterations + 1) = Some p"
            by (simp add: find_prev.simps [of _ _ _ "Some c"])
          with "1.IH" [OF Some True refl ne lt] show ?thesis by simp
        next
          case False
          with ne True Some "1.prems" show ?thesis
            by (simp add: find_prev.simps [of _ _ _ "Some c"])
        qed
      qed
    qed
  qed
qed

text \<open>
  \<^verbatim>\<open>coalesceBlocks\<close>: absorb the physically next block when it is free; then, when the
  block found by the search above is free, merge into it and coalesce again from there.
\<close>

function coalesceBlocks :: "MemoryManager \<Rightarrow> nat \<Rightarrow> MemoryManager" where
  "coalesceBlocks m block =
     (let blockEnd = block + size_h (physicalMemory m block);
          m1 = (if blockEnd < totalMemorySize m \<and> is_free (physicalMemory m blockEnd) then
                  let m' = removeFromFreeList m blockEnd;
                      mem' = physicalMemory m'
                  in m'\<lparr>physicalMemory := mem'(block := (mem' block)
                         \<lparr>size_h := size_h (mem' block) + size_h (mem' blockEnd)\<rparr>)\<rparr>
                else m)
      in
      case find_prev (physicalMemory m1) (totalMemorySize m1) block (firstBlock m1) 0 of
        None \<Rightarrow> m1
      | Some p \<Rightarrow>
          if is_free (physicalMemory m1 p) then
            let m2 = removeFromFreeList m1 block;
                mem2 = physicalMemory m2
            in coalesceBlocks
                 (m2\<lparr>physicalMemory := mem2(p := (mem2 p)
                        \<lparr>size_h := size_h (mem2 p) + size_h (mem2 block)\<rparr>)\<rparr>) p
          else m1)"
  by pat_completeness auto
termination
  by (relation "measure snd") (auto dest: find_prev_less)

declare coalesceBlocks.simps [simp del]

subsection \<open>Allocation and deallocation\<close>

text \<open>
  \<^verbatim>\<open>allocate\<close>. The result is \<open>None\<close> when the search does not return; otherwise the returned
  pointer (\<open>None\<close> for \<^verbatim>\<open>nullptr\<close>) and the state left behind.
\<close>

definition allocate ::
  "nat \<Rightarrow> MemoryManager \<Rightarrow> nat \<Rightarrow> (nat option \<times> MemoryManager) option" where
  "allocate H m sz =
     (if sz = 0 then
        Some (None, m\<lparr>allocationFailureCount := allocationFailureCount m + 1\<rparr>)
      else
        let requiredSize = size_t_add sz H;
            m0 = m\<lparr>totalRequestedSize := size_t_add (totalRequestedSize m) sz\<rparr>
        in
        case (case currentStrategy m0 of
                FIRST_FIT \<Rightarrow> findFirstFit m0 requiredSize
              | BEST_FIT \<Rightarrow> Some (findBestFit m0 requiredSize)
              | WORST_FIT \<Rightarrow> findWorstFit m0 requiredSize) of
          None \<Rightarrow> None
        | Some None \<Rightarrow>
            Some (None, m0\<lparr>allocationFailureCount := allocationFailureCount m0 + 1\<rparr>)
        | Some (Some block) \<Rightarrow>
            let m1 = (if size_h (physicalMemory m0 block) \<ge> size_t_add (size_t_add requiredSize H) 8
                      then splitBlock H m0 block requiredSize else m0);
                new_id = nextBlockId m1;
                m2 = m1\<lparr>physicalMemory := (physicalMemory m1)
                          (block := (physicalMemory m1 block)\<lparr>is_free := False, block_id := new_id\<rparr>),
                        nextBlockId := new_id + 1\<rparr>;
                m3 = removeFromFreeList m2 block;
                userPtr = block + H
            in Some (Some userPtr,
                 m3\<lparr>addressToHeader := (addressToHeader m3)(userPtr \<mapsto> block),
                    idToHeader := (idToHeader m3)(new_id \<mapsto> block),
                    idToRequestedSize := (idToRequestedSize m3)(new_id \<mapsto> sz),
                    totalAllocatedSize := size_t_add (totalAllocatedSize m3)
                      (size_t_sub (size_h (physicalMemory m3 block)) H),
                    allocationSuccessCount := allocationSuccessCount m3 + 1\<rparr>))"

text \<open>A client pointer: \<open>None\<close> is \<^verbatim>\<open>nullptr\<close>, \<open>Some a\<close> the address \<open>a\<close> bytes after the start
  of the arena (addresses below the arena behave as those past its end).\<close>

definition isValidPointer :: "MemoryManager \<Rightarrow> nat option \<Rightarrow> bool" where
  "isValidPointer m ptr = (case ptr of None \<Rightarrow> False | Some a \<Rightarrow> a < totalMemorySize m)"

definition getHeader :: "MemoryManager \<Rightarrow> nat option \<Rightarrow> nat option" where
  "getHeader m ptr = (case ptr of None \<Rightarrow> None | Some a \<Rightarrow> addressToHeader m a)"

text \<open>\<^verbatim>\<open>bool deallocate(void* ptr)\<close>\<close>

definition deallocate :: "nat \<Rightarrow> MemoryManager \<Rightarrow> nat option \<Rightarrow> bool \<times> MemoryManager" where
  "deallocate H m ptr =
     (if \<not> isValidPointer m ptr then (False, m)
      else
        case getHeader m ptr of
          None \<Rightarrow> (False, m)
        | Some block \<Rightarrow>
            if is_free (physicalMemory m block) then (False, m)
            else
              let hdr = physicalMemory m block;
                  m1 = m\<lparr>physicalMemory := (physicalMemory m)(block := hdr\<lparr>is_free := True\<rparr>),
                         totalAllocatedSize := size_t_sub (totalAllocatedSize m)
                           (size_t_sub (size_h hdr) H)\<rparr>;
                  m2 = m1\<lparr>idToRequestedSize := (idToRequestedSize m1)(block_id hdr := None)\<rparr>;
                  m3 = coalesceBlocks (addToFreeList m2 block) block
              in (True,
                  m3\<lparr>addressToHeader := (addressToHeader m3)(the ptr := None),
                     idToHeader := (idToHeader m3)(block_id (physicalMemory m3 block) := None)\<rparr>))"

text \<open>\<^verbatim>\<open>bool deallocate(size_t block_id)\<close>\<close>

definition deallocate_id :: "nat \<Rightarrow> MemoryManager \<Rightarrow> nat \<Rightarrow> bool \<times> MemoryManager" where
  "deallocate_id H m bid =
     (case idToHeader m bid of
        None \<Rightarrow> (False, m)
      | Some block \<Rightarrow> deallocate H m (Some (block + H)))"

definition setAllocationStrategy :: "MemoryManager \<Rightarrow> AllocationStrategy \<Rightarrow> MemoryManager" where
  "setAllocationStrategy m strategy =
     (if strategy = currentStrategy m then m else m\<lparr>currentStrategy := strategy\<rparr>)"

subsection \<open>Observers that walk the arena\<close>

text \<open>
  The three walks over the physical blocks share their loop: while
  \<^verbatim>\<open>address < totalMemorySize && iterations < 1000\<close>, use the header at \<^verbatim>\<open>address\<close>, advance by
  its size and count the iteration. (\<^verbatim>\<open>current\<close> is the header at \<^verbatim>\<open>address\<close> throughout and is
  never null; the \<^verbatim>\<open>break\<close> when the new address reaches the end is the loop condition
  failing at the next test.) Each result comes with the number of iterations made.
\<close>

function largest_walk ::
  "(nat \<Rightarrow> BlockHeader) \<Rightarrow> nat \<Rightarrow> nat \<Rightarrow> nat \<Rightarrow> nat \<Rightarrow> nat \<times> nat" where
  "largest_walk mem tot address iterations largest =
     (if address < tot \<and> iterations < 1000 then
        largest_walk mem tot (address + size_h (mem address)) (iterations + 1)
          (if is_free (mem address) \<and> size_h (mem address) > largest
           then size_h (mem address) else largest)
      else (largest, iterations))"
  by pat_completeness auto
termination
  by (relation "measure (\<lambda>(mem, tot, address, iterations, largest). 1000 - iterations)") auto

declare largest_walk.simps [simp del]

definition getLargestFreeBlock :: "MemoryManager \<Rightarrow> nat" where
  "getLargestFreeBlock m = fst (largest_walk (physicalMemory m) (totalMemorySize m) 0 0 0)"

text \<open>The loop of \<^verbatim>\<open>getExternalFragmentation\<close>: \<^verbatim>\<open>totalFreeUsable\<close>, \<^verbatim>\<open>largestFreeUsable\<close> and
  the iterations.\<close>

function fragmentation_walk ::
  "nat \<Rightarrow> (nat \<Rightarrow> BlockHeader) \<Rightarrow> nat \<Rightarrow> nat \<Rightarrow> nat \<Rightarrow> nat \<Rightarrow> nat \<Rightarrow> nat \<times> nat \<times> nat" where
  "fragmentation_walk H mem tot address iterations totalFreeUsable largestFreeUsable =
     (if address < tot \<and> iterations < 1000 then
        let usableSize = size_t_sub (size_h (mem address)) H in
        if is_free (mem address) then
          fragmentation_walk H mem tot (address + size_h (mem address)) (iterations + 1)
            (size_t_add totalFreeUsable usableSize)
            (if usableSize > largestFreeUsable then usableSize else largestFreeUsable)
        else
          fragmentation_walk H mem tot (address + size_h (mem address)) (iterations + 1)
            totalFreeUsable largestFreeUsable
      else (totalFreeUsable, largestFreeUsable, iterations))"
  by pat_completeness auto
termination
  by (relation "measure (\<lambda>(H, mem, tot, address, iterations, t, l). 1000 - iterations)") auto

declare fragmentation_walk.simps [simp del]

text \<open>
  \<^verbatim>\<open>getExternalFragmentation\<close> returns a \<^verbatim>\<open>double\<close>, \<open>externalFrag / totalMemorySize * 100\<close>; the
  model returns the two integers of that quotient, \<open>(externalFrag, totalMemorySize)\<close>, and
  \<open>(0, 1)\<close> where the program returns \<open>0.0\<close>.
\<close>

definition getExternalFragmentation :: "nat \<Rightarrow> MemoryManager \<Rightarrow> nat \<times> nat" where
  "getExternalFragmentation H m =
     (if totalMemorySize m = 0 then (0, 1)
      else
        case fragmentation_walk H (physicalMemory m) (totalMemorySize m) 0 0 0 0 of
          (totalFreeUsable, largestFreeUsable, iterations) \<Rightarrow>
            if totalFreeUsable = 0 then (0, 1)
            else ((if totalFreeUsable > largestFreeUsable
                   then totalFreeUsable - largestFreeUsable else 0), totalMemorySize m))"

text \<open>\<^verbatim>\<open>std::setw(8)\<close> with \<^verbatim>\<open>std::setfill('0')\<close> in hexadecimal.\<close>

definition hex8 :: "nat \<Rightarrow> string" where
  "hex8 n = replicate (8 - length (show_base 16 n)) CHR ''0'' @ show_base 16 n"

definition dump_line :: "nat \<Rightarrow> nat \<Rightarrow> BlockHeader \<Rightarrow> string" where
  "dump_line H address hdr =
     ''[0x'' @ hex8 address @ '' - 0x'' @ hex8 (size_t_sub (address + size_h hdr) 1) @ ''] ''
       @ (if is_free hdr then ''FREE''
          else ''USED (id='' @ show_base 10 (block_id hdr) @ '', size=''
                 @ show_base 10 (size_t_sub (size_h hdr) H) @ '' bytes)'')"

text \<open>The loop of \<^verbatim>\<open>dumpMemory\<close>: the lines printed for the blocks, and the iterations.\<close>

function dump_walk ::
  "nat \<Rightarrow> (nat \<Rightarrow> BlockHeader) \<Rightarrow> nat \<Rightarrow> nat \<Rightarrow> nat \<Rightarrow> string list \<times> nat" where
  "dump_walk H mem tot address iterations =
     (if address < tot \<and> iterations < 1000 then
        (case dump_walk H mem tot (address + size_h (mem address)) (iterations + 1) of
           (ls, n) \<Rightarrow> (dump_line H address (mem address) # ls, n))
      else ([], iterations))"
  by pat_completeness auto
termination
  by (relation "measure (\<lambda>(H, mem, tot, address, iterations). 1000 - iterations)") auto

declare dump_walk.simps [simp del]

text \<open>\<^verbatim>\<open>dumpMemory\<close>: the lines written to standard output (the output starts and ends with
  an empty line).\<close>

definition dumpMemory :: "nat \<Rightarrow> MemoryManager \<Rightarrow> string list" where
  "dumpMemory H m =
     ['''', ''=== Memory Dump ===''] @ fst (dump_walk H (physicalMemory m) (totalMemorySize m) 0 0)
       @ [''=================='', '''']"

subsection \<open>The block sequence and the free list, as lists\<close>

text \<open>
  \<open>is_chain mem tot a bs\<close>: starting at offset \<open>a\<close>, the headers in \<open>mem\<close> describe the blocks
  at the offsets \<open>bs\<close>, each non-empty and followed by the next, the last one ending at
  \<open>tot\<close>. The physical blocks of a manager are the \<open>bs\<close> with
  \<open>is_chain (physicalMemory m) (totalMemorySize m) 0 bs\<close>.
\<close>

primrec is_chain :: "(nat \<Rightarrow> BlockHeader) \<Rightarrow> nat \<Rightarrow> nat \<Rightarrow> nat list \<Rightarrow> bool" where
  "is_chain mem tot a [] \<longleftrightarrow> a = tot"
| "is_chain mem tot a (b # bs) \<longleftrightarrow>
     b = a \<and> a < tot \<and> 0 < size_h (mem a) \<and> is_chain mem tot (a + size_h (mem a)) bs"

text \<open>No two blocks of the sequence, one beginning exactly where the other ends, are both
  free.\<close>

definition no_adjacent_free :: "(nat \<Rightarrow> BlockHeader) \<Rightarrow> nat list \<Rightarrow> bool" where
  "no_adjacent_free mem bs \<longleftrightarrow>
     (\<forall>x \<in> set bs. \<forall>y \<in> set bs.
        y = x + size_h (mem x) \<longrightarrow> \<not> (is_free (mem x) \<and> is_free (mem y)))"



text \<open>The first \<open>n\<close> entries of the free list from \<open>p\<close> (fewer when it ends before).\<close>

fun free_prefix :: "nat \<Rightarrow> (nat \<Rightarrow> BlockHeader) \<Rightarrow> nat option \<Rightarrow> nat list" where
  "free_prefix 0 mem p = []"
| "free_prefix (Suc n) mem None = []"
| "free_prefix (Suc n) mem (Some a) = a # free_prefix n mem (next_h (mem a))"

text \<open>The offsets of the first \<open>n\<close> physical blocks from offset \<open>a\<close> (fewer when the arena ends
  before).\<close>

fun phys_prefix :: "nat \<Rightarrow> (nat \<Rightarrow> BlockHeader) \<Rightarrow> nat \<Rightarrow> nat \<Rightarrow> nat list" where
  "phys_prefix 0 mem tot a = []"
| "phys_prefix (Suc n) mem tot a =
     (if a < tot then a # phys_prefix n mem tot (a + size_h (mem a)) else [])"

text \<open>What the three walks accumulate per block.\<close>

definition largest_step :: "(nat \<Rightarrow> BlockHeader) \<Rightarrow> nat \<Rightarrow> nat \<Rightarrow> nat" where
  "largest_step mem largest a =
     (if is_free (mem a) \<and> size_h (mem a) > largest then size_h (mem a) else largest)"

definition fragmentation_step ::
  "nat \<Rightarrow> (nat \<Rightarrow> BlockHeader) \<Rightarrow> nat \<times> nat \<Rightarrow> nat \<Rightarrow> nat \<times> nat" where
  "fragmentation_step H mem acc a =
     (if is_free (mem a) then
        (size_t_add (fst acc) (size_t_sub (size_h (mem a)) H),
         (if size_t_sub (size_h (mem a)) H > snd acc then size_t_sub (size_h (mem a)) H
          else snd acc))
      else acc)"

subsection \<open>The two halves of \<^verbatim>\<open>coalesceBlocks\<close>\<close>

text \<open>
  For the proofs, the body of \<^verbatim>\<open>coalesceBlocks\<close> is cut in two: \<open>absorb_next\<close> is the merge
  with the physically next block, \<open>merge_prev\<close> the merge into the block found by the search
  (lemma \<open>coalesceBlocks_unfold\<close> puts them together again).
\<close>

definition absorb_next :: "MemoryManager \<Rightarrow> nat \<Rightarrow> MemoryManager" where
  "absorb_next m block =
     (let blockEnd = block + size_h (physicalMemory m block) in
      if blockEnd < totalMemorySize m \<and> is_free (physicalMemory m blockEnd) then
        let m' = removeFromFreeList m blockEnd;
            mem' = physicalMemory m'
        in m'\<lparr>physicalMemory := mem'(block := (mem' block)
               \<lparr>size_h := size_h (mem' block) + size_h (mem' blockEnd)\<rparr>)\<rparr>
      else m)"

definition merge_prev :: "MemoryManager \<Rightarrow> nat \<Rightarrow> nat \<Rightarrow> MemoryManager" where
  "merge_prev m1 block p =
     (let m2 = removeFromFreeList m1 block;
          mem2 = physicalMemory m2
      in m2\<lparr>physicalMemory := mem2(p := (mem2 p)
             \<lparr>size_h := size_h (mem2 p) + size_h (mem2 block)\<rparr>)\<rparr>)"

subsection \<open>Concrete runs\<close>

text \<open>
  The states of three runs on a 4096-byte arena with \<open>H = 32\<close>, named after the operation
  that produced them. Each is what the operation returns as its new state; the theorems
  about the runs say that the operation returned, and what.
\<close>






text \<open>First-Fit: three times \<^verbatim>\<open>malloc 100\<close>, then \<^verbatim>\<open>free\<close> of the first and of the third
  block.\<close>

definition ff_init :: MemoryManager where
  "ff_init = the (MemoryManager_new 32 4096 FIRST_FIT)"

definition ff_malloc1 :: MemoryManager where
  "ff_malloc1 = snd (the (allocate 32 ff_init 100))"






section \<open>Proofs: the cache hierarchy\<close>

lemma log2_floor_pow_le: "0 < n \<Longrightarrow> 2 ^ log2_floor n \<le> n"
proof (induction n rule: log2_floor.induct)
  case (1 n)
  show ?case
  proof (cases "n < 2")
    case True
    with "1.prems" show ?thesis by (simp add: log2_floor.simps [of n])
  next
    case False
    then have "0 < n div 2" by simp
    with 1 False have "2 ^ log2_floor (n div 2) \<le> n div 2" by simp
    with False show ?thesis by (simp add: log2_floor.simps [of n])
  qed
qed

lemma find_invalid_Some:
  "find_invalid bs i = Some j \<Longrightarrow> i \<le> j \<and> j < i + length bs \<and> \<not> valid (bs ! (j - i))"
proof (induction bs arbitrary: i)
  case Nil
  then show ?case by simp
next
  case (Cons b bs)
  show ?case
  proof (cases "valid b")
    case True
    with Cons.prems have "find_invalid bs (Suc i) = Some j" by simp
    from Cons.IH [OF this] show ?thesis by (auto simp: Suc_diff_le)
  next
    case False
    with Cons.prems show ?thesis by simp
  qed
qed

lemma find_invalid_None: "find_invalid bs i = None \<Longrightarrow> \<forall>b \<in> set bs. valid b"
  by (induction bs arbitrary: i) (auto split: if_splits)

lemma find_tag_Some:
  "find_tag bs tg i = Some j \<Longrightarrow>
     i \<le> j \<and> j < i + length bs \<and> valid (bs ! (j - i)) \<and> tag (bs ! (j - i)) = tg"
proof (induction bs arbitrary: i)
  case Nil
  then show ?case by simp
next
  case (Cons b bs)
  show ?case
  proof (cases "valid b \<and> tag b = tg")
    case True
    with Cons.prems show ?thesis by simp
  next
    case False
    with Cons.prems have "find_tag bs tg (Suc i) = Some j" by auto
    from Cons.IH [OF this] show ?thesis by (auto simp: Suc_diff_le)
  qed
qed

lemma find_tag_None: "find_tag bs tg i = None \<Longrightarrow> \<forall>b \<in> set bs. \<not> (valid b \<and> tag b = tg)"
  by (induction bs arbitrary: i) (auto split: if_splits)

lemma lru_scan_bound: "victim < i \<Longrightarrow> lru_scan bs i victim t < i + length bs"
proof (induction bs arbitrary: i victim t)
  case Nil
  then show ?case by simp
next
  case (Cons b bs)
  have a: "lru_scan bs (Suc i) i (last_access b) < Suc i + length bs"
    by (rule Cons.IH) simp
  have b: "lru_scan bs (Suc i) victim t < Suc i + length bs"
    by (rule Cons.IH) (use Cons.prems in simp)
  from a b show ?case by simp
qed

lemma lfu_scan_bound: "victim < i \<Longrightarrow> lfu_scan bs i victim t < i + length bs"
proof (induction bs arbitrary: i victim t)
  case Nil
  then show ?case by simp
next
  case (Cons b bs)
  have a: "lfu_scan bs (Suc i) i (access_count b) < Suc i + length bs"
    by (rule Cons.IH) simp
  have b: "lfu_scan bs (Suc i) victim t < Suc i + length bs"
    by (rule Cons.IH) (use Cons.prems in simp)
  from a b show ?case by simp
qed

lemma findVictim_ok:
  assumes "set_ok cs"
  shows "\<exists>v cs'. findVictim pol cs = Some (v, cs') \<and> v < length (blocks cs')
           \<and> blocks cs' = blocks cs \<and> associativity cs' = associativity cs \<and> set_ok cs'"
proof (cases pol)
  case FIFO
  show ?thesis
  proof (cases "fifoQueue cs")
    case Nil
    from assms obtain n where n: "length (blocks cs) = Suc n"
      by (cases "blocks cs") (auto simp: set_ok_def)
    have "[0..<Suc n] = 0 # [1..<Suc n]" by (simp add: upt_rec)
    with Nil n FIFO assms show ?thesis
      by (auto simp: findVictim_def findVictimFIFO_def set_ok_def)
  next
    case (Cons q qs)
    with FIFO assms show ?thesis
      by (auto simp: findVictim_def findVictimFIFO_def set_ok_def)
  qed
next
  case LRU
  from assms obtain b bs where bs: "blocks cs = b # bs"
    by (cases "blocks cs") (auto simp: set_ok_def)
  have "lru_scan bs 1 0 (last_access b) < 1 + length bs" by (rule lru_scan_bound) simp
  with LRU bs assms show ?thesis
    by (auto simp: findVictim_def findVictimLRU_def set_ok_def Let_def)
next
  case LFU
  from assms obtain b bs where bs: "blocks cs = b # bs"
    by (cases "blocks cs") (auto simp: set_ok_def)
  have "lfu_scan bs 1 0 (access_count b) < 1 + length bs" by (rule lfu_scan_bound) simp
  with LFU bs assms show ?thesis
    by (auto simp: findVictim_def findVictimLFU_def set_ok_def)
qed

lemma updateReplacementData_shape:
  "length (blocks (updateReplacementData L cs i pol)) = length (blocks cs)
   \<and> associativity (updateReplacementData L cs i pol) = associativity cs
   \<and> fifoQueue (updateReplacementData L cs i pol) = fifoQueue cs"
  by (cases pol) (simp_all add: updateReplacementData_def)

lemma updateReplacementData_ok: "set_ok cs \<Longrightarrow> set_ok (updateReplacementData L cs i pol)"
  using updateReplacementData_shape [of L cs i pol] by (auto simp: set_ok_def)

lemma extractSetIndex_bound: "level_ok L \<Longrightarrow> extractSetIndex L a < length (sets L)"
proof -
  assume "level_ok L"
  then have "2 ^ set_index_bits L \<le> length (sets L)" by (simp add: level_ok_def)
  moreover have "extractSetIndex L a < 2 ^ set_index_bits L" by (simp add: extractSetIndex_def)
  ultimately show ?thesis by simp
qed

lemma level_ok_update:
  "level_ok L \<Longrightarrow> set_ok cs' \<Longrightarrow> set_index_bits L' = set_index_bits L
     \<Longrightarrow> sets L' = (sets L)[si := cs'] \<Longrightarrow> level_ok L'"
  by (auto simp: level_ok_def dest!: set_update_subset_insert [THEN subsetD])

lemma level_inv_update:
  assumes "level_inv L" "set_ok cs'" "tags_distinct (blocks cs')"
    "\<forall>b \<in> set (blocks cs'). last_access b \<le> global_time L'"
    "global_time L \<le> global_time L'"
    "set_index_bits L' = set_index_bits L" "sets L' = (sets L)[si := cs']"
  shows "level_inv L'"
proof -
  from assms have ok: "level_ok L'" by (auto simp: level_inv_def intro: level_ok_update)
  have "tags_distinct (blocks cs) \<and> (\<forall>b \<in> set (blocks cs). last_access b \<le> global_time L')"
    if "cs \<in> set (sets L')" for cs
  proof -
    from that assms(7) have "cs = cs' \<or> cs \<in> set (sets L)"
      using set_update_subset_insert [of "sets L" si cs'] by auto
    then show ?thesis
    proof
      assume "cs = cs'"
      with assms show ?thesis by simp
    next
      assume "cs \<in> set (sets L)"
      with assms(1,5) show ?thesis by (fastforce simp: level_inv_def)
    qed
  qed
  with ok show ?thesis by (simp add: level_inv_def)
qed

lemma level_inv_same_sets:
  "level_inv L \<Longrightarrow> sets L' = sets L \<Longrightarrow> set_index_bits L' = set_index_bits L
     \<Longrightarrow> global_time L \<le> global_time L' \<Longrightarrow> level_inv L'"
  by (fastforce simp: level_inv_def level_ok_def)

lemma CacheBlock_overwrite:
  "(b::CacheBlock)\<lparr>valid := a, tag := t, load_time := l, last_access := x, access_count := c\<rparr>
     = \<lparr>valid = a, tag = t, load_time = l, last_access = x, access_count = c\<rparr>"
  by (cases b) simp

lemma updateReplacementData_after_load:
  assumes "v < length bs"
  shows "blocks (updateReplacementData L
            (cs\<lparr>blocks := bs[v := (bs ! v)\<lparr>valid := True, tag := tg,
                load_time := global_time L, last_access := global_time L, access_count := 1\<rparr>]\<rparr>)
            v (policy L))
         = bs[v := filled_line L tg]"
  using assms
  by (cases "policy L") (simp_all add: updateReplacementData_def filled_line_def CacheBlock_overwrite
        numeral_2_eq_2)

lemma fill_level_result:
  assumes si: "si < length (sets L)" and ok: "set_ok (sets L ! si)"
  shows "\<exists>v cs' L' r'.
           fill_level L si tg r = Some (L', r')
         \<and> v < length (blocks (sets L ! si))
         \<and> L' = L\<lparr>sets := (sets L)[si := cs'],
                   evictions := (if valid (blocks (sets L ! si) ! v) then evictions L + 1
                                 else evictions L)\<rparr>
         \<and> blocks cs' = (blocks (sets L ! si))[v := filled_line L tg]
         \<and> set_ok cs'
         \<and> r' = r\<lparr>events := (if valid (blocks (sets L ! si) ! v)
                   then events r @ [eviction_event (levelNum L) (tag (blocks (sets L ! si) ! v)) si]
                   else events r)\<rparr>"
proof -
  let ?cs = "sets L ! si"
  let ?bs = "blocks ?cs"
  from ok have assoc: "associativity ?cs = length ?bs" by (simp add: set_ok_def)
  show ?thesis
  proof (cases "find_invalid ?bs 0")
    case None
    then have allv: "\<forall>b \<in> set ?bs. valid b" by (rule find_invalid_None)
    from findVictim_ok [OF ok, of "policy L"] obtain v cs1 where
      fv: "findVictim (policy L) ?cs = Some (v, cs1)" and v: "v < length (blocks cs1)"
      and bs1: "blocks cs1 = ?bs" and ok1: "set_ok cs1" by blast
    from v bs1 allv have vv: "valid (?bs ! v)" by simp
    let ?L1 = "L\<lparr>evictions := evictions L + 1\<rparr>"
    let ?cs3 = "updateReplacementData ?L1
        (cs1\<lparr>blocks := ?bs[v := (?bs ! v)\<lparr>valid := True, tag := tg,
            load_time := global_time ?L1, last_access := global_time ?L1, access_count := 1\<rparr>]\<rparr>)
        v (policy ?L1)"
    from v bs1 have b3: "blocks ?cs3 = ?bs[v := filled_line ?L1 tg]"
      by (intro updateReplacementData_after_load) simp
    have "set_ok (cs1\<lparr>blocks := ?bs[v := (?bs ! v)\<lparr>valid := True, tag := tg,
            load_time := global_time ?L1, last_access := global_time ?L1, access_count := 1\<rparr>]\<rparr>)"
      using ok1 bs1 by (simp add: set_ok_def)
    then have ok3: "set_ok ?cs3" by (rule updateReplacementData_ok)
    have res: "fill_level L si tg r = Some (?L1\<lparr>sets := (sets L)[si := ?cs3]\<rparr>,
        r\<lparr>events := events r @ [eviction_event (levelNum L) (tag (?bs ! v)) si]\<rparr>)"
      using None assoc fv v bs1 by (simp add: fill_level_def Let_def)
    show ?thesis
      apply (rule exI [of _ v], rule exI [of _ ?cs3])
      using res v bs1 b3 ok3 vv by (simp add: filled_line_def)
  next
    case (Some j)
    from find_invalid_Some [OF Some] have j: "j < length ?bs" and nv: "\<not> valid (?bs ! j)" by auto
    let ?cs3 = "updateReplacementData L
        (?cs\<lparr>blocks := ?bs[j := (?bs ! j)\<lparr>valid := True, tag := tg,
            load_time := global_time L, last_access := global_time L, access_count := 1\<rparr>]\<rparr>)
        j (policy L)"
    from j have b3: "blocks ?cs3 = ?bs[j := filled_line L tg]"
      by (intro updateReplacementData_after_load) simp
    have "set_ok (?cs\<lparr>blocks := ?bs[j := (?bs ! j)\<lparr>valid := True, tag := tg,
            load_time := global_time L, last_access := global_time L, access_count := 1\<rparr>]\<rparr>)"
      using ok by (simp add: set_ok_def)
    then have ok3: "set_ok ?cs3" by (rule updateReplacementData_ok)
    have res: "fill_level L si tg r = Some (L\<lparr>sets := (sets L)[si := ?cs3]\<rparr>, r)"
      using Some assoc j by (simp add: fill_level_def Let_def)
    show ?thesis
      apply (rule exI [of _ j], rule exI [of _ ?cs3])
      using res j b3 ok3 nv by simp
  qed
qed

lemma same_geometry_extract:
  "same_geometry L L' \<Longrightarrow> extractSetIndex L' a = extractSetIndex L a \<and> extractTag L' a = extractTag L a"
  by (simp add: same_geometry_def extractSetIndex_def extractTag_def)

lemma tags_distinct_fill:
  assumes "tags_distinct bs" "\<forall>b \<in> set bs. \<not> (valid b \<and> tag b = tg)" "valid x" "tag x = tg"
  shows "tags_distinct (bs[v := x])"
  unfolding tags_distinct_def
proof (intro allI impI)
  fix i j
  assume i: "i < length (bs[v := x])" and j: "j < length (bs[v := x])"
    and h: "valid (bs[v := x] ! i) \<and> valid (bs[v := x] ! j) \<and> tag (bs[v := x] ! i) = tag (bs[v := x] ! j)"
  show "i = j"
  proof (cases "i = v")
    case True
    show ?thesis
    proof (cases "j = v")
      case True
      with \<open>i = v\<close> show ?thesis by simp
    next
      case False
      with True i j h assms(4) have "valid (bs ! j) \<and> tag (bs ! j) = tg" by simp
      moreover from j have "bs ! j \<in> set bs" by simp
      ultimately show ?thesis using assms(2) by blast
    qed
  next
    case False
    show ?thesis
    proof (cases "j = v")
      case True
      with False i j h assms(4) have "valid (bs ! i) \<and> tag (bs ! i) = tg" by simp
      moreover from i have "bs ! i \<in> set bs" by simp
      ultimately show ?thesis using assms(2) by blast
    next
      case jv: False
      with False i j h have "valid (bs ! i) \<and> valid (bs ! j) \<and> tag (bs ! i) = tag (bs ! j)" by simp
      with assms(1) i j show ?thesis by (simp add: tags_distinct_def)
    qed
  qed
qed

lemma tags_distinct_touch:
  assumes "tags_distinct bs" "length bs' = length bs"
    "\<forall>j < length bs. valid (bs' ! j) = valid (bs ! j) \<and> tag (bs' ! j) = tag (bs ! j)"
  shows "tags_distinct bs'"
  using assms unfolding tags_distinct_def by metis

lemma updateReplacementData_fields:
  assumes "j < length (blocks cs)"
  shows "valid (blocks (updateReplacementData L cs i pol) ! j) = valid (blocks cs ! j)
       \<and> tag (blocks (updateReplacementData L cs i pol) ! j) = tag (blocks cs ! j)
       \<and> last_access (blocks (updateReplacementData L cs i pol) ! j)
           = (if pol = LRU \<and> j = i then global_time L else last_access (blocks cs ! j))"
  using assms by (cases pol; cases "i = j") (auto simp: updateReplacementData_def)

lemma find_tag_holds:
  assumes "find_tag (blocks (sets L ! extractSetIndex L a)) (extractTag L a) 0 = None"
  shows "\<not> holds_tag L a"
  using find_tag_None [OF assms] by (auto simp: holds_tag_def)

lemma not_holds_find_tag:
  assumes "\<not> holds_tag L a"
  shows "find_tag (blocks (sets L ! extractSetIndex L a)) (extractTag L a) 0 = None"
proof (cases "find_tag (blocks (sets L ! extractSetIndex L a)) (extractTag L a) 0")
  case None
  then show ?thesis .
next
  case (Some i)
  from find_tag_Some [OF Some] have "i < length (blocks (sets L ! extractSetIndex L a))"
    "valid (blocks (sets L ! extractSetIndex L a) ! i)"
    "tag (blocks (sets L ! extractSetIndex L a) ! i) = extractTag L a" by auto
  then have "holds_tag L a" unfolding holds_tag_def using nth_mem by blast
  with assms show ?thesis by simp
qed

lemma extract_update [simp]:
  "extractSetIndex (L\<lparr>global_time := t\<rparr>) a = extractSetIndex L a"
  "extractSetIndex (L\<lparr>hits := n\<rparr>) a = extractSetIndex L a"
  "extractSetIndex (L\<lparr>misses := n\<rparr>) a = extractSetIndex L a"
  "extractSetIndex (L\<lparr>evictions := n\<rparr>) a = extractSetIndex L a"
  "extractSetIndex (L\<lparr>sets := ss\<rparr>) a = extractSetIndex L a"
  "extractTag (L\<lparr>global_time := t\<rparr>) a = extractTag L a"
  "extractTag (L\<lparr>hits := n\<rparr>) a = extractTag L a"
  "extractTag (L\<lparr>misses := n\<rparr>) a = extractTag L a"
  "extractTag (L\<lparr>evictions := n\<rparr>) a = extractTag L a"
  "extractTag (L\<lparr>sets := ss\<rparr>) a = extractTag L a"
  by (simp_all add: extractSetIndex_def extractTag_def)

lemma level_inv_set:
  assumes "level_inv L" "si < length (sets L)"
  shows "set_ok (sets L ! si)" "tags_distinct (blocks (sets L ! si))"
    "\<forall>b \<in> set (blocks (sets L ! si)). last_access b \<le> global_time L"
  using assms nth_mem [of si "sets L"] by (auto simp: level_inv_def level_ok_def)

lemma accessLevel_probe:
  assumes inv: "level_inv L"
  shows "\<exists>h L'. accessLevel L a r True False = Some (h, L', r)
     \<and> level_inv L' \<and> same_geometry L L'
     \<and> hits L' + misses L' = hits L + misses L + 1
     \<and> global_time L' = global_time L + 1
     \<and> (h \<and> policy L = LRU \<longrightarrow> mru_line L' a)
     \<and> (\<not> h \<longrightarrow> \<not> holds_tag L' a)
     \<and> h = holds_tag L a"
proof -
  let ?si = "extractSetIndex L a"
  let ?tg = "extractTag L a"
  let ?cs = "sets L ! ?si"
  let ?L0 = "L\<lparr>global_time := global_time L + 1\<rparr>"
  from inv have si: "?si < length (sets L)"
    by (simp add: level_inv_def extractSetIndex_bound)
  note cs = level_inv_set [OF inv si]
  show ?thesis
  proof (cases "find_tag (blocks ?cs) ?tg 0")
    case None
    let ?L' = "?L0\<lparr>misses := misses L + 1\<rparr>"
    have res: "accessLevel L a r True False = Some (False, ?L', r)"
      using None si by (simp add: accessLevel_def Let_def)
    have "level_inv ?L'" using inv by (rule level_inv_same_sets) simp_all
    moreover have "same_geometry L ?L'" by (simp add: same_geometry_def)
    moreover have "\<not> holds_tag ?L' a"
      using find_tag_holds [OF None] by (simp add: holds_tag_def)
    ultimately show ?thesis
      using res find_tag_holds [OF None] by (intro exI [of _ False] exI [of _ ?L']) simp
  next
    case (Some i)
    from find_tag_Some [OF Some] have i: "i < length (blocks ?cs)"
      and vi: "valid (blocks ?cs ! i)" and ti: "tag (blocks ?cs ! i) = ?tg" by auto
    let ?L1 = "?L0\<lparr>hits := hits L + 1\<rparr>"
    let ?cs' = "updateReplacementData ?L1 ?cs i (policy L)"
    let ?L' = "?L1\<lparr>sets := (sets L)[?si := ?cs']\<rparr>"
    have res: "accessLevel L a r True False = Some (True, ?L', r)"
      using Some si by (simp add: accessLevel_def Let_def)
    note sh = updateReplacementData_shape [of ?L1 ?cs i "policy L"]
    note fl = updateReplacementData_fields [of _ ?cs ?L1 i "policy L"]
    have ok': "set_ok ?cs'" using cs(1) by (rule updateReplacementData_ok)
    have td': "tags_distinct (blocks ?cs')"
    proof (rule tags_distinct_touch [OF cs(2)])
      show "length (blocks ?cs') = length (blocks ?cs)" using sh by simp
      show "\<forall>j < length (blocks ?cs). valid (blocks ?cs' ! j) = valid (blocks ?cs ! j)
              \<and> tag (blocks ?cs' ! j) = tag (blocks ?cs ! j)"
        using fl by simp
    qed
    have tm': "\<forall>b \<in> set (blocks ?cs'). last_access b \<le> global_time ?L'"
    proof
      fix b assume "b \<in> set (blocks ?cs')"
      then obtain j where j: "j < length (blocks ?cs')" and b: "b = blocks ?cs' ! j"
        by (auto simp: in_set_conv_nth)
      from j sh have j': "j < length (blocks ?cs)" by simp
      then have "blocks ?cs ! j \<in> set (blocks ?cs)" by simp
      with cs(3) have "last_access (blocks ?cs ! j) \<le> global_time L" by blast
      with fl [OF j'] b show "last_access b \<le> global_time ?L'" by simp
    qed
    have inv': "level_inv ?L'"
      using inv ok' td' tm' by (rule level_inv_update) simp_all
    have geo: "same_geometry L ?L'" by (simp add: same_geometry_def)
    have mru: "mru_line ?L' a" if lru: "policy L = LRU"
    proof -
      have ex': "extractSetIndex ?L' a = ?si" "extractTag ?L' a = ?tg"
        by simp_all
      have set': "sets ?L' ! ?si = ?cs'" using si by simp
      have len: "length (blocks ?cs') = length (blocks ?cs)" using sh by simp
      have top: "last_access (blocks ?cs' ! i) = global_time L + 1"
        using fl [OF i] lru by simp
      have le: "last_access (blocks ?cs' ! j) \<le> global_time L + 1" if "j < length (blocks ?cs)" for j
        using tm' that len nth_mem [of j "blocks ?cs'"] by auto
      have uniq: "i' = i" if "i' < length (blocks ?cs)" "valid (blocks ?cs' ! i')"
        "tag (blocks ?cs' ! i') = ?tg" for i'
      proof -
        from that fl [OF that(1)] have "valid (blocks ?cs ! i')" "tag (blocks ?cs ! i') = ?tg"
          by simp_all
        with cs(2) that(1) i vi ti show ?thesis unfolding tags_distinct_def by metis
      qed
      have "\<exists>k < length (blocks ?cs'). valid (blocks ?cs' ! k) \<and> tag (blocks ?cs' ! k) = ?tg"
        using i vi ti fl [OF i] len by auto
      moreover have "\<forall>k < length (blocks ?cs'). valid (blocks ?cs' ! k) \<and> tag (blocks ?cs' ! k) = ?tg
          \<longrightarrow> (\<forall>j < length (blocks ?cs'). last_access (blocks ?cs' ! j) \<le> last_access (blocks ?cs' ! k))"
      proof (intro allI impI)
        fix k j
        assume k: "k < length (blocks ?cs')"
          and vk: "valid (blocks ?cs' ! k) \<and> tag (blocks ?cs' ! k) = ?tg"
          and j: "j < length (blocks ?cs')"
        from k vk len have "k = i" by (intro uniq) simp_all
        moreover from j len have "last_access (blocks ?cs' ! j) \<le> global_time L + 1"
          by (intro le) simp
        ultimately show "last_access (blocks ?cs' ! j) \<le> last_access (blocks ?cs' ! k)"
          using top by simp
      qed
      ultimately show ?thesis
        unfolding mru_line_def Let_def ex' set' by simp
    qed
    have "holds_tag L a"
      unfolding holds_tag_def using i vi ti nth_mem [OF i] by blast
    then show ?thesis
      using res inv' geo mru by (intro exI [of _ True] exI [of _ ?L']) simp
  qed
qed

lemma accessLevel_fill:
  assumes inv: "level_inv L" and miss: "\<not> holds_tag L a"
  shows "\<exists>L' r'. accessLevel L a r False True = Some (False, L', r')
     \<and> level_inv L' \<and> same_geometry L L'
     \<and> hits L' = hits L \<and> misses L' = misses L \<and> global_time L' = global_time L
     \<and> mru_line L' a
     \<and> l1Hit r' = l1Hit r \<and> l2Hit r' = l2Hit r \<and> l2Accessed r' = l2Accessed r"
proof -
  let ?si = "extractSetIndex L a"
  let ?tg = "extractTag L a"
  let ?bs = "blocks (sets L ! ?si)"
  from inv have si: "?si < length (sets L)"
    by (simp add: level_inv_def extractSetIndex_bound)
  note cs = level_inv_set [OF inv si]
  from miss have none: "find_tag ?bs ?tg 0 = None" by (rule not_holds_find_tag)
  from miss have fresh: "\<forall>b \<in> set ?bs. \<not> (valid b \<and> tag b = ?tg)"
    by (auto simp: holds_tag_def)
  from fill_level_result [OF si cs(1), of ?tg r] obtain v cs' L' r' where
    fl: "fill_level L ?si ?tg r = Some (L', r')" and v: "v < length ?bs"
    and L': "L' = L\<lparr>sets := (sets L)[?si := cs'],
                     evictions := (if valid (?bs ! v) then evictions L + 1 else evictions L)\<rparr>"
    and bs': "blocks cs' = ?bs[v := filled_line L ?tg]" and ok': "set_ok cs'"
    and r': "r' = r\<lparr>events := (if valid (?bs ! v)
                   then events r @ [eviction_event (levelNum L) (tag (?bs ! v)) ?si]
                   else events r)\<rparr>"
    by blast
  have res: "accessLevel L a r False True = Some (False, L', r')"
    using none si fl by (simp add: accessLevel_def Let_def)
  have td': "tags_distinct (blocks cs')"
    unfolding bs' using cs(2) fresh by (rule tags_distinct_fill) (simp_all add: filled_line_def)
  have tm': "\<forall>b \<in> set (blocks cs'). last_access b \<le> global_time L'"
  proof
    fix b assume "b \<in> set (blocks cs')"
    with bs' have "b = filled_line L ?tg \<or> b \<in> set ?bs"
      using set_update_subset_insert [of ?bs v "filled_line L ?tg"] by auto
    with cs(3) show "last_access b \<le> global_time L'"
      by (auto simp: L' filled_line_def)
  qed
  have inv': "level_inv L'"
    using inv ok' td' tm' by (rule level_inv_update) (simp_all add: L')
  have geo: "same_geometry L L'" by (simp add: same_geometry_def L')
  have mru: "mru_line L' a"
  proof -
    have ex': "extractSetIndex L' a = ?si" "extractTag L' a = ?tg" by (simp_all add: L')
    have set': "blocks (sets L' ! ?si) = ?bs[v := filled_line L ?tg]"
      using si bs' by (simp add: L')
    have here: "valid (?bs[v := filled_line L ?tg] ! v) \<and> tag (?bs[v := filled_line L ?tg] ! v) = ?tg
       \<and> last_access (?bs[v := filled_line L ?tg] ! v) = global_time L"
      using v by (simp add: filled_line_def)
    have le: "last_access (?bs[v := filled_line L ?tg] ! j) \<le> global_time L" if "j < length ?bs" for j
    proof (cases "j = v")
      case True
      with here show ?thesis by simp
    next
      case False
      with that cs(3) nth_mem [OF that] show ?thesis by auto
    qed
    have uniq: "k = v" if "k < length ?bs" "valid (?bs[v := filled_line L ?tg] ! k)"
        "tag (?bs[v := filled_line L ?tg] ! k) = ?tg" for k
    proof (rule ccontr)
      assume "k \<noteq> v"
      with that have "valid (?bs ! k) \<and> tag (?bs ! k) = ?tg" by simp
      with fresh nth_mem [OF that(1)] show False by blast
    qed
    have "\<exists>k < length (?bs[v := filled_line L ?tg]).
        valid (?bs[v := filled_line L ?tg] ! k) \<and> tag (?bs[v := filled_line L ?tg] ! k) = ?tg"
      using v here by auto
    moreover have "\<forall>k < length (?bs[v := filled_line L ?tg]).
        valid (?bs[v := filled_line L ?tg] ! k) \<and> tag (?bs[v := filled_line L ?tg] ! k) = ?tg
          \<longrightarrow> (\<forall>j < length (?bs[v := filled_line L ?tg]).
                 last_access (?bs[v := filled_line L ?tg] ! j)
                   \<le> last_access (?bs[v := filled_line L ?tg] ! k))"
    proof (intro allI impI)
      fix k j
      assume k: "k < length (?bs[v := filled_line L ?tg])"
        and vk: "valid (?bs[v := filled_line L ?tg] ! k) \<and> tag (?bs[v := filled_line L ?tg] ! k) = ?tg"
        and j: "j < length (?bs[v := filled_line L ?tg])"
      from k vk have "k = v" by (intro uniq) simp_all
      moreover from j have "last_access (?bs[v := filled_line L ?tg] ! j) \<le> global_time L"
        by (intro le) simp
      ultimately show "last_access (?bs[v := filled_line L ?tg] ! j)
                   \<le> last_access (?bs[v := filled_line L ?tg] ! k)"
        using here by simp
    qed
    ultimately show ?thesis
      unfolding mru_line_def Let_def ex' set' by simp
  qed
  show ?thesis
    using res inv' geo mru by (intro exI [of _ L'] exI [of _ r']) (simp add: L' r')
qed

lemma level_inv_init:
  assumes "initCacheLevel lvl sz bsz assoc pol = Some L"
  shows "level_inv L \<and> hits L = 0 \<and> misses L = 0 \<and> policy L = pol"
proof -
  let ?d = "size_t_mul bsz assoc"
  let ?ns = "sz div ?d"
  from assms have d: "?d \<noteq> 0" and ns: "?ns \<noteq> 0"
    by (auto simp: initCacheLevel_def Let_def split: if_splits)
  from d have assoc: "assoc \<noteq> 0" by (cases "assoc = 0") (simp_all add: size_t_mul_def)
  let ?cs = "\<lparr>blocks = replicate assoc empty_block, associativity = assoc,
              fifoQueue = [], lruList = []\<rparr>"
  from assms d ns have L: "sets L = replicate ?ns ?cs" "set_index_bits L = log2_floor ?ns"
    "hits L = 0" "misses L = 0" "policy L = pol"
    by (auto simp: initCacheLevel_def Let_def)
  have "2 ^ log2_floor ?ns \<le> ?ns" using ns by (intro log2_floor_pow_le) simp
  moreover have "set_ok ?cs" using assoc by (simp add: set_ok_def)
  moreover have "tags_distinct (replicate assoc empty_block)"
    by (simp add: tags_distinct_def empty_block_def)
  ultimately show ?thesis
    using L by (auto simp: level_inv_def level_ok_def empty_block_def)
qed

lemma same_geometry_mru:
  "same_geometry L L' \<Longrightarrow> policy L' = policy L"
  by (simp add: same_geometry_def)

lemma holds_tag_cong:
  "sets L' = sets L \<Longrightarrow> same_geometry L L' \<Longrightarrow> holds_tag L' a = holds_tag L a"
  by (simp add: holds_tag_def same_geometry_extract)

lemma access_step:
  assumes inv: "sim_inv sim"
  shows "\<exists>r sim'. access sim a = Some (r, sim') \<and> sim_inv sim'
     \<and> policy (l1_cache sim') = policy (l1_cache sim)
     \<and> policy (l2_cache sim') = policy (l2_cache sim)
     \<and> hits (l1_cache sim') + misses (l1_cache sim')
          = hits (l1_cache sim) + misses (l1_cache sim) + 1
     \<and> hits (l2_cache sim') + misses (l2_cache sim')
          = hits (l2_cache sim) + misses (l2_cache sim) + (if l2Accessed r then 1 else 0)
     \<and> l2Accessed r = (\<not> l1Hit r)
     \<and> l1Hit r = holds_tag (l1_cache sim) a
     \<and> (policy (l1_cache sim) = LRU \<longrightarrow> mru_line (l1_cache sim') a)
     \<and> (l2Accessed r \<and> policy (l2_cache sim) = LRU \<longrightarrow> mru_line (l2_cache sim') a)"
proof -
  let ?r0 = "\<lparr>l1Hit = False, l2Hit = False, l2Accessed = False, events = []\<rparr>"
  from inv have i1: "level_inv (l1_cache sim)" and i2: "level_inv (l2_cache sim)"
    by (simp_all add: sim_inv_def)
  from accessLevel_probe [OF i1, of a ?r0] obtain h1 L1a where
    p1: "accessLevel (l1_cache sim) a ?r0 True False = Some (h1, L1a, ?r0)"
    and i1a: "level_inv L1a" and g1a: "same_geometry (l1_cache sim) L1a"
    and c1a: "hits L1a + misses L1a = hits (l1_cache sim) + misses (l1_cache sim) + 1"
    and m1a: "h1 \<and> policy (l1_cache sim) = LRU \<longrightarrow> mru_line L1a a"
    and n1a: "\<not> h1 \<longrightarrow> \<not> holds_tag L1a a"
    and e1a: "h1 = holds_tag (l1_cache sim) a"
    by blast
  show ?thesis
  proof (cases h1)
    case True
    have res: "access sim a = Some (?r0\<lparr>l1Hit := True\<rparr>, sim\<lparr>l1_cache := L1a\<rparr>)"
      using p1 True by (simp add: access_def)
    show ?thesis
      using res i1a i2 g1a c1a m1a e1a True
      by (intro exI [of _ "?r0\<lparr>l1Hit := True\<rparr>"] exI [of _ "sim\<lparr>l1_cache := L1a\<rparr>"])
         (simp add: sim_inv_def same_geometry_def)
  next
    case h1: False
    let ?r1 = "?r0\<lparr>l1Hit := False, l2Accessed := True\<rparr>"
    from accessLevel_probe [OF i2, of a ?r1] obtain h2 L2a where
      p2: "accessLevel (l2_cache sim) a ?r1 True False = Some (h2, L2a, ?r1)"
      and i2a: "level_inv L2a" and g2a: "same_geometry (l2_cache sim) L2a"
      and c2a: "hits L2a + misses L2a = hits (l2_cache sim) + misses (l2_cache sim) + 1"
      and m2a: "h2 \<and> policy (l2_cache sim) = LRU \<longrightarrow> mru_line L2a a"
      and n2a: "\<not> h2 \<longrightarrow> \<not> holds_tag L2a a"
      by blast
    from h1 n1a have miss1: "\<not> holds_tag L1a a" by simp
    show ?thesis
    proof (cases h2)
      case True
      let ?r2 = "?r1\<lparr>l2Hit := True\<rparr>"
      from accessLevel_fill [OF i1a miss1, of ?r2] obtain L1b r3 where
        f1: "accessLevel L1a a ?r2 False True = Some (False, L1b, r3)"
        and i1b: "level_inv L1b" and g1b: "same_geometry L1a L1b"
        and c1b: "hits L1b = hits L1a" "misses L1b = misses L1a"
        and m1b: "mru_line L1b a"
        and r3: "l1Hit r3 = l1Hit ?r2" "l2Accessed r3 = l2Accessed ?r2"
        by blast
      have res: "access sim a = Some (r3, sim\<lparr>l1_cache := L1b, l2_cache := L2a\<rparr>)"
        using p1 h1 p2 True f1 by (simp add: access_def)
      show ?thesis
        using res i1b i2a g1a g1b g2a c1a c1b c2a m1b m2a r3 e1a h1 True
        by (intro exI [of _ r3] exI [of _ "sim\<lparr>l1_cache := L1b, l2_cache := L2a\<rparr>"])
           (simp add: sim_inv_def same_geometry_def)
    next
      case h2: False
      let ?r2 = "?r1\<lparr>l2Hit := False\<rparr>"
      from h2 n2a have miss2: "\<not> holds_tag L2a a" by simp
      from accessLevel_fill [OF i2a miss2, of ?r2] obtain L2b r3 where
        f2: "accessLevel L2a a ?r2 False True = Some (False, L2b, r3)"
        and i2b: "level_inv L2b" and g2b: "same_geometry L2a L2b"
        and c2b: "hits L2b = hits L2a" "misses L2b = misses L2a"
        and m2b: "mru_line L2b a"
        and r3: "l1Hit r3 = l1Hit ?r2" "l2Accessed r3 = l2Accessed ?r2"
        by blast
      from accessLevel_fill [OF i1a miss1, of r3] obtain L1b r4 where
        f1: "accessLevel L1a a r3 False True = Some (False, L1b, r4)"
        and i1b: "level_inv L1b" and g1b: "same_geometry L1a L1b"
        and c1b: "hits L1b = hits L1a" "misses L1b = misses L1a"
        and m1b: "mru_line L1b a"
        and r4: "l1Hit r4 = l1Hit r3" "l2Accessed r4 = l2Accessed r3"
        by blast
      have res: "access sim a = Some (r4, sim\<lparr>l1_cache := L1b, l2_cache := L2b\<rparr>)"
        using p1 h1 p2 h2 f2 f1 by (simp add: access_def)
      show ?thesis
        using res i1b i2b g1a g1b g2a g2b c1a c1b c2a c2b m1b m2b r3 r4 e1a h1
        by (intro exI [of _ r4] exI [of _ "sim\<lparr>l1_cache := L1b, l2_cache := L2b\<rparr>"])
           (simp add: sim_inv_def same_geometry_def)
    qed
  qed
qed

lemma sim_inv_new:
  assumes "CacheSimulator_new s1 b1 a1 s2 b2 a2 pol = Some sim"
  shows "sim_inv sim \<and> hits (l1_cache sim) = 0 \<and> misses (l1_cache sim) = 0
         \<and> hits (l2_cache sim) = 0 \<and> misses (l2_cache sim) = 0"
proof -
  from assms obtain L1 L2 where
    l1: "initCacheLevel 1 s1 b1 a1 pol = Some L1" and l2: "initCacheLevel 2 s2 b2 a2 pol = Some L2"
    and sim: "sim = \<lparr>l1_cache = L1, l2_cache = L2, defaultPolicy = pol\<rparr>"
    by (auto simp: CacheSimulator_new_def split: option.splits)
  from level_inv_init [OF l1] level_inv_init [OF l2] sim show ?thesis
    by (simp add: sim_inv_def)
qed

lemma level_inv_policy: "level_inv L \<Longrightarrow> level_inv (L\<lparr>policy := p\<rparr>)"
  by (simp add: level_inv_def level_ok_def)

lemma reachable_cache_inv: "reachable_cache sim \<Longrightarrow> sim_inv sim"
proof (induction rule: reachable_cache.induct)
  case (constructed s1 b1 a1 s2 b2 a2 pol sim)
  then show ?case using sim_inv_new by blast
next
  case (accessed sim a r sim')
  from access_step [OF accessed.IH, of a] accessed.hyps(2) show ?case by auto
next
  case (policy_set sim pol)
  then show ?case by (simp add: sim_inv_def setReplacementPolicy_def level_inv_policy)
next
  case (level_policy_set sim n pol)
  then show ?case by (simp add: sim_inv_def setReplacementPolicyLevel_def level_inv_policy)
qed


lemma log2_floor_small:
  "log2_floor (Suc 0) = 0" "log2_floor 16 = 4"
  by (simp_all add: log2_floor.simps [of "Suc 0"] log2_floor.simps [of 16] log2_floor.simps [of 8]
      log2_floor.simps [of 4] log2_floor.simps [of 2])

lemma tiny_sim_new: "CacheSimulator_new 16 16 1 16 16 1 pol = Some (tiny_sim pol)"
  by (simp add: CacheSimulator_new_def initCacheLevel_def size_t_mul_def size_t_sub_def
      log2_floor_small tiny_sim_def tiny_level_def)


subsection \<open>C1: construction does not validate the geometry\<close>

text \<open>
  C1 (as claimed): constructing the hierarchy with a block size, associativity or number of
  sets that is not a positive power of two, or with a block size that does not divide the
  cache size, fails with BadGeometry. The constructor has no such check. Counterexample:
  a 100-byte cache with 3-byte blocks and 5 ways (6 sets; 3 does not divide 100) is
  constructed.
\<close>

theorem bad_geometry_counterexample:
  "CacheSimulator_new 100 3 5 100 3 5 FIFO \<noteq> None
   \<and> num_sets (l1_cache (the (CacheSimulator_new 100 3 5 100 3 5 FIFO))) = 6"
  by (simp add: CacheSimulator_new_def initCacheLevel_def size_t_mul_def Let_def)

text \<open>
  C1 (amended): the constructor never reports an error. Whenever, at both levels, the
  product \<open>block_size * associativity\<close> (as a \<^verbatim>\<open>size_t\<close>) is positive and at most the cache
  size, it returns a hierarchy whose levels have \<open>cache_size div (block_size * associativity)\<close>
  sets of \<open>associativity\<close> invalid lines, with zeroed counters; powers of two and
  divisibility play no part.
\<close>

theorem construction_unchecked:
  assumes "0 < size_t_mul b1 a1" "size_t_mul b1 a1 \<le> s1"
    and "0 < size_t_mul b2 a2" "size_t_mul b2 a2 \<le> s2"
  shows "\<exists>sim. CacheSimulator_new s1 b1 a1 s2 b2 a2 pol = Some sim
    \<and> sets (l1_cache sim) = replicate (s1 div size_t_mul b1 a1)
         \<lparr>blocks = replicate a1 empty_block, associativity = a1, fifoQueue = [], lruList = []\<rparr>
    \<and> sets (l2_cache sim) = replicate (s2 div size_t_mul b2 a2)
         \<lparr>blocks = replicate a2 empty_block, associativity = a2, fifoQueue = [], lruList = []\<rparr>
    \<and> num_sets (l1_cache sim) = s1 div size_t_mul b1 a1
    \<and> num_sets (l2_cache sim) = s2 div size_t_mul b2 a2
    \<and> hits (l1_cache sim) = 0 \<and> misses (l1_cache sim) = 0
    \<and> hits (l2_cache sim) = 0 \<and> misses (l2_cache sim) = 0"
proof -
  from assms(1,2) have "0 < s1 div size_t_mul b1 a1" by (simp add: div_greater_zero_iff)
  moreover from assms(3,4) have "0 < s2 div size_t_mul b2 a2" by (simp add: div_greater_zero_iff)
  ultimately show ?thesis
    using assms by (simp add: CacheSimulator_new_def initCacheLevel_def Let_def)
qed

theorem construction_unchecked_witness:
  "\<exists>sim. CacheSimulator_new 100 3 5 100 3 5 FIFO = Some sim
    \<and> length (sets (l1_cache sim)) = 6 \<and> length (sets (l2_cache sim)) = 6
    \<and> num_sets (l1_cache sim) = 6 \<and> hits (l1_cache sim) = 0 \<and> misses (l2_cache sim) = 0"
proof -
  have m: "size_t_mul 3 5 = 15" by (simp add: size_t_mul_def)
  from construction_unchecked [of 3 5 100 3 5 100 FIFO] show ?thesis
    unfolding m by auto
qed

subsection \<open>C2: what a fill leaves in the chosen line\<close>

text \<open>
  C2: on a miss that allocates, the chosen line becomes valid with the new tag,
  \<open>load_time = last_access = global_time\<close>, and an eviction event
  \<open>L{lvl} Eviction: Tag 0x{old_tag} (Set {set_index})\<close> is appended exactly when the slot was
  valid before. All of that holds in the code, for every simulator the program can reach.
  The access count does not: the code stores 1 and then calls \<^verbatim>\<open>updateReplacementData\<close>,
  which under LFU increments it, so an LFU fill leaves \<open>access_count = 2\<close>.
\<close>

theorem fill_on_miss:
  assumes "reachable_cache sim" "L = l1_cache sim \<or> L = l2_cache sim" "si < length (sets L)"
  shows "\<exists>v L' r'. fill_level L si tg r = Some (L', r')
    \<and> v < length (blocks (sets L ! si))
    \<and> blocks (sets L' ! si) = (blocks (sets L ! si))
         [v := \<lparr>valid = True, tag = tg, load_time = global_time L, last_access = global_time L,
                access_count = (if policy L = LFU then 2 else 1)\<rparr>]
    \<and> events r' = (if valid (blocks (sets L ! si) ! v)
                    then events r @
                      [eviction_event (levelNum L) (tag (blocks (sets L ! si) ! v)) si]
                    else events r)"
proof -
  from assms(1) have "sim_inv sim" by (rule reachable_cache_inv)
  with assms(2) have "level_inv L" by (auto simp: sim_inv_def)
  from level_inv_set(1) [OF this assms(3)] have ok: "set_ok (sets L ! si)" .
  from fill_level_result [OF assms(3) ok, of tg r] obtain v cs' L' r' where
    "fill_level L si tg r = Some (L', r')" "v < length (blocks (sets L ! si))"
    "L' = L\<lparr>sets := (sets L)[si := cs'],
             evictions := (if valid (blocks (sets L ! si) ! v) then evictions L + 1
                           else evictions L)\<rparr>"
    "blocks cs' = (blocks (sets L ! si))[v := filled_line L tg]"
    "r' = r\<lparr>events := (if valid (blocks (sets L ! si) ! v)
                   then events r @ [eviction_event (levelNum L) (tag (blocks (sets L ! si) ! v)) si]
                   else events r)\<rparr>"
    by blast
  then show ?thesis
    using assms(3) by (intro exI [of _ v] exI [of _ L'] exI [of _ r']) (simp add: filled_line_def)
qed

theorem fill_on_miss_witness:
  "\<exists>L' r'. fill_level (tiny_level LFU 1) 0 7
        \<lparr>l1Hit = False, l2Hit = False, l2Accessed = True, events = []\<rparr> = Some (L', r')
    \<and> blocks (sets L' ! 0)
        = [\<lparr>valid = True, tag = 7, load_time = 0, last_access = 0, access_count = 2\<rparr>]
    \<and> events r' = []"
proof -
  have "reachable_cache (tiny_sim LFU)"
    by (rule reachable_cache.constructed) (rule tiny_sim_new)
  from fill_on_miss [OF this, of "tiny_level LFU 1" 0 7
      "\<lparr>l1Hit = False, l2Hit = False, l2Accessed = True, events = []\<rparr>"]
  show ?thesis
    by (auto simp: tiny_sim_def tiny_level_def empty_block_def)
qed

subsection \<open>C6: hits plus misses count the probes\<close>



subsection \<open>C7: under LRU the accessed line is the most recently used of its set\<close>



section \<open>Proofs: the allocator\<close>

subsection \<open>The bounded walks\<close>

lemma largest_walk_prefix:
  "it + n = 1000 \<Longrightarrow> largest_walk mem tot a it l =
     (foldl (largest_step mem) l (phys_prefix n mem tot a),
      it + length (phys_prefix n mem tot a))"
proof (induction n arbitrary: a it l)
  case 0
  then show ?case by (subst largest_walk.simps) simp
next
  case (Suc n)
  then have it: "it < 1000" "Suc it + n = 1000" by simp_all
  show ?case
  proof (cases "a < tot")
    case True
    with it(1) have "largest_walk mem tot a it l
        = largest_walk mem tot (a + size_h (mem a)) (Suc it) (largest_step mem l a)"
      by (subst largest_walk.simps) (simp add: largest_step_def)
    with True Suc.IH [OF it(2)] show ?thesis by simp
  next
    case False
    then show ?thesis by (subst largest_walk.simps) simp
  qed
qed

lemma fragmentation_walk_prefix:
  "it + n = 1000 \<Longrightarrow> fragmentation_walk H mem tot a it t l =
     (fst (foldl (fragmentation_step H mem) (t, l) (phys_prefix n mem tot a)),
      snd (foldl (fragmentation_step H mem) (t, l) (phys_prefix n mem tot a)),
      it + length (phys_prefix n mem tot a))"
proof (induction n arbitrary: a it t l)
  case 0
  then show ?case by (subst fragmentation_walk.simps) simp
next
  case (Suc n)
  then have it: "it < 1000" "Suc it + n = 1000" by simp_all
  show ?case
  proof (cases "a < tot")
    case True
    with it(1) have "fragmentation_walk H mem tot a it t l
        = fragmentation_walk H mem tot (a + size_h (mem a)) (Suc it)
            (fst (fragmentation_step H mem (t, l) a)) (snd (fragmentation_step H mem (t, l) a))"
      by (subst fragmentation_walk.simps) (simp add: fragmentation_step_def Let_def)
    with True Suc.IH [OF it(2)] show ?thesis by simp
  next
    case False
    then show ?thesis by (subst fragmentation_walk.simps) simp
  qed
qed

lemma dump_walk_prefix:
  "it + n = 1000 \<Longrightarrow> dump_walk H mem tot a it =
     (map (\<lambda>b. dump_line H b (mem b)) (phys_prefix n mem tot a),
      it + length (phys_prefix n mem tot a))"
proof (induction n arbitrary: a it)
  case 0
  then show ?case by (subst dump_walk.simps) simp
next
  case (Suc n)
  then have it: "it < 1000" "Suc it + n = 1000" by simp_all
  show ?case
  proof (cases "a < tot")
    case True
    with it(1) Suc.IH [OF it(2)] show ?thesis
      by (subst dump_walk.simps) simp
  next
    case False
    then show ?thesis by (subst dump_walk.simps) simp
  qed
qed

lemma bestFit_loop_prefix:
  "it + n = 10000 \<Longrightarrow> bestFit_loop mem sz best cur it =
     (foldl (better_fit mem sz) best (free_prefix n mem cur),
      it + length (free_prefix n mem cur))"
proof (induction n arbitrary: best cur it)
  case 0
  then show ?case by (subst bestFit_loop.simps) (simp split: option.split)
next
  case (Suc n)
  then have it: "it < 10000" "Suc it + n = 10000" by simp_all
  show ?case
  proof (cases cur)
    case None
    then show ?thesis by (subst bestFit_loop.simps) simp
  next
    case (Some c)
    with it(1) Suc.IH [OF it(2)] show ?thesis
      by (subst bestFit_loop.simps) simp
  qed
qed

lemma phys_prefix_length: "length (phys_prefix n mem tot a) \<le> n"
  by (induction n mem tot a rule: phys_prefix.induct) auto

lemma free_prefix_length: "length (free_prefix n mem p) \<le> n"
  by (induction n mem p rule: free_prefix.induct) auto

subsection \<open>C10: the bounded walks see a prefix only\<close>

text \<open>
  C10: each of the four bounded loops stops after at most its cap of iterations, and its
  result is computed from the entries it visited: \<^verbatim>\<open>findBestFit\<close> from the first (at most)
  10000 entries of the free list, \<^verbatim>\<open>getLargestFreeBlock\<close>, \<^verbatim>\<open>getExternalFragmentation\<close> and
  \<^verbatim>\<open>dumpMemory\<close> from the first (at most) 1000 physical blocks. Whatever lies beyond does
  not enter the result. The second component of each loop's value is the number of
  iterations it made.
\<close>

theorem observers_inspect_prefix:
  "findBestFit m sz
     = foldl (better_fit (physicalMemory m) sz) None
         (free_prefix 10000 (physicalMemory m) (freeListHead m))
   \<and> length (free_prefix 10000 (physicalMemory m) (freeListHead m)) \<le> 10000
   \<and> snd (bestFit_loop (physicalMemory m) sz None (freeListHead m) 0)
       = length (free_prefix 10000 (physicalMemory m) (freeListHead m))
   \<and> getLargestFreeBlock m
       = foldl (largest_step (physicalMemory m)) 0
           (phys_prefix 1000 (physicalMemory m) (totalMemorySize m) 0)
   \<and> snd (largest_walk (physicalMemory m) (totalMemorySize m) 0 0 0)
       = length (phys_prefix 1000 (physicalMemory m) (totalMemorySize m) 0)
   \<and> fragmentation_walk H (physicalMemory m) (totalMemorySize m) 0 0 0 0
       = (fst (foldl (fragmentation_step H (physicalMemory m)) (0, 0)
                (phys_prefix 1000 (physicalMemory m) (totalMemorySize m) 0)),
          snd (foldl (fragmentation_step H (physicalMemory m)) (0, 0)
                (phys_prefix 1000 (physicalMemory m) (totalMemorySize m) 0)),
          length (phys_prefix 1000 (physicalMemory m) (totalMemorySize m) 0))
   \<and> dumpMemory H m
       = [[], ''=== Memory Dump ===''] 
         @ map (\<lambda>a. dump_line H a (physicalMemory m a))
             (phys_prefix 1000 (physicalMemory m) (totalMemorySize m) 0)
         @ [''=================='', []]
   \<and> length (phys_prefix 1000 (physicalMemory m) (totalMemorySize m) 0) \<le> 1000"
  by (simp add: findBestFit_def getLargestFreeBlock_def dumpMemory_def
      bestFit_loop_prefix [of 0 10000] largest_walk_prefix [of 0 1000]
      fragmentation_walk_prefix [of 0 1000] dump_walk_prefix [of 0 1000]
      phys_prefix_length free_prefix_length)

subsection \<open>What the free-list operations leave alone; the block sequence\<close>

lemma removeFromFreeList_frame [simp]:
  "size_h (physicalMemory (removeFromFreeList m x) a) = size_h (physicalMemory m a)"
  "is_free (physicalMemory (removeFromFreeList m x) a) = is_free (physicalMemory m a)"
  "block_id (physicalMemory (removeFromFreeList m x) a) = block_id (physicalMemory m a)"
  "totalMemorySize (removeFromFreeList m x) = totalMemorySize m"
  "firstBlock (removeFromFreeList m x) = firstBlock m"
  "currentStrategy (removeFromFreeList m x) = currentStrategy m"
  "nextBlockId (removeFromFreeList m x) = nextBlockId m"
  "addressToHeader (removeFromFreeList m x) = addressToHeader m"
  "idToHeader (removeFromFreeList m x) = idToHeader m"
  "idToRequestedSize (removeFromFreeList m x) = idToRequestedSize m"
  by (simp_all add: removeFromFreeList_def Let_def split: option.split)

lemma addToFreeList_frame [simp]:
  "size_h (physicalMemory (addToFreeList m x) a) = size_h (physicalMemory m a)"
  "is_free (physicalMemory (addToFreeList m x) a) = is_free (physicalMemory m a)"
  "block_id (physicalMemory (addToFreeList m x) a) = block_id (physicalMemory m a)"
  "totalMemorySize (addToFreeList m x) = totalMemorySize m"
  "firstBlock (addToFreeList m x) = firstBlock m"
  "currentStrategy (addToFreeList m x) = currentStrategy m"
  "nextBlockId (addToFreeList m x) = nextBlockId m"
  "addressToHeader (addToFreeList m x) = addressToHeader m"
  "idToHeader (addToFreeList m x) = idToHeader m"
  "idToRequestedSize (addToFreeList m x) = idToRequestedSize m"
  by (simp_all add: addToFreeList_def Let_def split: option.split)

text \<open>The chain depends on the sizes only.\<close>

lemma is_chain_cong:
  "(\<And>a. a \<in> set bs \<Longrightarrow> size_h (mem' a) = size_h (mem a))
     \<Longrightarrow> is_chain mem' tot a bs = is_chain mem tot a bs"
  by (induction bs arbitrary: a) auto

lemma is_chain_mem: "is_chain mem tot a bs \<Longrightarrow> b \<in> set bs \<Longrightarrow> b < tot \<and> a \<le> b \<and> b + size_h (mem b) \<le> tot \<and> 0 < size_h (mem b)"
proof (induction bs arbitrary: a)
  case Nil
  then show ?case by simp
next
  case (Cons c cs)
  show ?case
  proof (cases "b = c")
    case True
    with Cons.prems(1) have "c = a" "a < tot" "0 < size_h (mem a)"
      "is_chain mem tot (a + size_h (mem a)) cs" by simp_all
    moreover have "a + size_h (mem a) \<le> tot"
    proof (cases cs)
      case Nil
      with \<open>is_chain mem tot (a + size_h (mem a)) cs\<close> show ?thesis by simp
    next
      case (Cons d ds)
      with \<open>is_chain mem tot (a + size_h (mem a)) cs\<close> show ?thesis by simp
    qed
    ultimately show ?thesis using True by simp
  next
    case False
    with Cons.prems have "b \<in> set cs" "is_chain mem tot (a + size_h (mem a)) cs" by simp_all
    from Cons.IH [OF this(2,1)] show ?thesis by simp
  qed
qed

lemma is_chain_append:
  "is_chain mem tot a (xs @ ys) \<longleftrightarrow>
     (\<exists>c. is_chain mem c a xs \<and> is_chain mem tot c ys \<and> c \<le> tot)"
proof (induction xs arbitrary: a)
  case Nil
  show ?case
  proof (cases ys)
    case Nil
    then show ?thesis by auto
  next
    case (Cons y ys')
    then show ?thesis by auto
  qed
next
  case (Cons x xs)
  show ?case
  proof
    assume "is_chain mem tot a ((x # xs) @ ys)"
    then have x: "x = a" "a < tot" "0 < size_h (mem a)"
      and r: "is_chain mem tot (a + size_h (mem a)) (xs @ ys)" by simp_all
    from r Cons.IH obtain c where c: "is_chain mem c (a + size_h (mem a)) xs"
      "is_chain mem tot c ys" "c \<le> tot" by blast
    have "a + size_h (mem a) \<le> c"
    proof (cases xs)
      case Nil
      with c(1) show ?thesis by simp
    next
      case (Cons d ds)
      with c(1) show ?thesis by simp
    qed
    with x have "a < c" by simp
    with x c show "\<exists>c. is_chain mem c a (x # xs) \<and> is_chain mem tot c ys \<and> c \<le> tot"
      by auto
  next
    assume "\<exists>c. is_chain mem c a (x # xs) \<and> is_chain mem tot c ys \<and> c \<le> tot"
    then obtain c where c: "is_chain mem c a (x # xs)" "is_chain mem tot c ys" "c \<le> tot"
      by blast
    then have "is_chain mem tot (a + size_h (mem a)) (xs @ ys)"
      using Cons.IH by auto
    with c show "is_chain mem tot a ((x # xs) @ ys)" by auto
  qed
qed

subsection \<open>Coalescing on a well-formed block sequence\<close>

lemma find_prev_self: "find_prev mem tot b (Some b) it = None"
  by (subst find_prev.simps) simp

lemma find_prev_chain:
  "is_chain mem b a pre \<Longrightarrow> pre \<noteq> [] \<Longrightarrow> b \<le> tot \<Longrightarrow> it + length pre \<le> 10000
     \<Longrightarrow> find_prev mem tot b (Some a) it = Some (last pre)"
proof (induction pre arbitrary: a it)
  case Nil
  then show ?case by simp
next
  case (Cons x xs)
  from Cons.prems have x: "x = a" "a < b" "0 < size_h (mem a)"
    and rest: "is_chain mem b (a + size_h (mem a)) xs" and it: "it < 10000" by simp_all
  show ?case
  proof (cases xs)
    case Nil
    with rest have "a + size_h (mem a) = b" by simp
    with x it Nil show ?thesis by (subst find_prev.simps) simp
  next
    case (Cons y ys)
    with rest have y: "y = a + size_h (mem a)" "y < b" by simp_all
    from Cons.prems Cons have "Suc it + length xs \<le> 10000" by simp
    from Cons.IH [OF rest _ Cons.prems(3) this] Cons
    have "find_prev mem tot b (Some (a + size_h (mem a))) (Suc it) = Some (last xs)" by simp
    with x it y Cons.prems(3) Cons show ?thesis
      by (subst find_prev.simps) simp
  qed
qed

lemma is_chain_split:
  assumes "is_chain mem tot a bs" "b \<in> set bs"
  shows "\<exists>pre post. bs = pre @ b # post \<and> is_chain mem b a pre
           \<and> is_chain mem tot (b + size_h (mem b)) post \<and> b < tot \<and> 0 < size_h (mem b)"
proof -
  from assms(2) obtain pre post where bs: "bs = pre @ b # post" by (auto simp: in_set_conv_decomp)
  with assms(1) obtain c where c: "is_chain mem c a pre" "is_chain mem tot c (b # post)"
    by (auto simp: is_chain_append)
  then show ?thesis using bs by auto
qed

lemma is_chain_lower: "is_chain mem tot a bs \<Longrightarrow> x \<in> set bs \<Longrightarrow> a \<le> x \<and> x < tot"
  using is_chain_mem by blast

lemma is_chain_distinct: "is_chain mem tot a bs \<Longrightarrow> distinct bs"
proof (induction bs arbitrary: a)
  case Nil
  then show ?case by simp
next
  case (Cons x xs)
  then have r: "is_chain mem tot (a + size_h (mem a)) xs" and x: "x = a" "0 < size_h (mem a)"
    by simp_all
  have "x \<notin> set xs"
  proof
    assume "x \<in> set xs"
    from is_chain_lower [OF r this] x show False by simp
  qed
  with Cons.IH [OF r] show ?case by simp
qed

text \<open>Without a free successor and a free predecessor, coalescing changes nothing.\<close>

lemma coalesceBlocks_noop:
  assumes "\<not> (block + size_h (physicalMemory m block) < totalMemorySize m
              \<and> is_free (physicalMemory m (block + size_h (physicalMemory m block))))"
    and "find_prev (physicalMemory m) (totalMemorySize m) block (firstBlock m) 0 = None
         \<or> (\<exists>p. find_prev (physicalMemory m) (totalMemorySize m) block (firstBlock m) 0 = Some p
                \<and> \<not> is_free (physicalMemory m p))"
  shows "coalesceBlocks m block = m"
  using assms by (subst coalesceBlocks.simps) (auto simp: Let_def)

lemma coalesceBlocks_unfold:
  "coalesceBlocks m block =
     (case find_prev (physicalMemory (absorb_next m block))
             (totalMemorySize (absorb_next m block)) block (firstBlock (absorb_next m block)) 0 of
        None \<Rightarrow> absorb_next m block
      | Some p \<Rightarrow>
          if is_free (physicalMemory (absorb_next m block) p)
          then coalesceBlocks (merge_prev (absorb_next m block) block p) p
          else absorb_next m block)"
  by (subst coalesceBlocks.simps) (unfold absorb_next_def merge_prev_def Let_def, rule refl)

lemma absorb_next_frame [simp]:
  "is_free (physicalMemory (absorb_next m b) a) = is_free (physicalMemory m a)"
  "block_id (physicalMemory (absorb_next m b) a) = block_id (physicalMemory m a)"
  "totalMemorySize (absorb_next m b) = totalMemorySize m"
  "firstBlock (absorb_next m b) = firstBlock m"
  "currentStrategy (absorb_next m b) = currentStrategy m"
  "nextBlockId (absorb_next m b) = nextBlockId m"
  "addressToHeader (absorb_next m b) = addressToHeader m"
  "idToHeader (absorb_next m b) = idToHeader m"
  "idToRequestedSize (absorb_next m b) = idToRequestedSize m"
  by (simp_all add: absorb_next_def Let_def)

lemma absorb_next_size:
  "size_h (physicalMemory (absorb_next m b) a) =
     (if a = b \<and> b + size_h (physicalMemory m b) < totalMemorySize m
         \<and> is_free (physicalMemory m (b + size_h (physicalMemory m b)))
      then size_h (physicalMemory m b)
             + size_h (physicalMemory m (b + size_h (physicalMemory m b)))
      else size_h (physicalMemory m a))"
  by (simp add: absorb_next_def Let_def)

lemma merge_prev_frame [simp]:
  "is_free (physicalMemory (merge_prev m b p) a) = is_free (physicalMemory m a)"
  "block_id (physicalMemory (merge_prev m b p) a) = block_id (physicalMemory m a)"
  "totalMemorySize (merge_prev m b p) = totalMemorySize m"
  "firstBlock (merge_prev m b p) = firstBlock m"
  "currentStrategy (merge_prev m b p) = currentStrategy m"
  "nextBlockId (merge_prev m b p) = nextBlockId m"
  "addressToHeader (merge_prev m b p) = addressToHeader m"
  "idToHeader (merge_prev m b p) = idToHeader m"
  "idToRequestedSize (merge_prev m b p) = idToRequestedSize m"
  by (simp_all add: merge_prev_def Let_def)

lemma merge_prev_size:
  "size_h (physicalMemory (merge_prev m b p) a) =
     (if a = p then size_h (physicalMemory m p) + size_h (physicalMemory m b)
      else size_h (physicalMemory m a))"
  by (simp add: merge_prev_def Let_def)

lemma is_chain_end_le:
  "is_chain mem tot a bs \<Longrightarrow> a \<le> tot"
  by (cases bs) auto

lemma is_chain_end_inj:
  "is_chain mem tot a bs \<Longrightarrow> x \<in> set bs \<Longrightarrow> y \<in> set bs
     \<Longrightarrow> x + size_h (mem x) = y + size_h (mem y) \<Longrightarrow> x = y"
proof (induction bs arbitrary: a)
  case Nil
  then show ?case by simp
next
  case (Cons b bs)
  then have r: "is_chain mem tot (a + size_h (mem a)) bs" and b: "b = a" by simp_all
  have later: "a + size_h (mem a) < z + size_h (mem z)" if "z \<in> set bs" for z
    using is_chain_mem [OF r that] by simp
  show ?case
  proof (cases "x = b")
    case True
    show ?thesis
    proof (cases "y = b")
      case True
      with \<open>x = b\<close> show ?thesis by simp
    next
      case False
      with Cons.prems have "y \<in> set bs" by simp
      from later [OF this] True b Cons.prems(4) show ?thesis by simp
    qed
  next
    case False
    with Cons.prems have xs: "x \<in> set bs" by simp
    show ?thesis
    proof (cases "y = b")
      case True
      from later [OF xs] True b Cons.prems(4) show ?thesis by simp
    next
      case False
      with Cons.prems have "y \<in> set bs" by simp
      from Cons.IH [OF r xs this Cons.prems(4)] show ?thesis .
    qed
  qed
qed

lemma is_chain_last:
  "is_chain mem c a pre \<Longrightarrow> pre \<noteq> [] \<Longrightarrow>
     last pre \<in> set pre \<and> last pre + size_h (mem (last pre)) = c
     \<and> is_chain mem (last pre) a (butlast pre)"
proof -
  assume c: "is_chain mem c a pre" and ne: "pre \<noteq> []"
  then have "pre = butlast pre @ [last pre]" by simp
  with c have "is_chain mem c a (butlast pre @ [last pre])" by simp
  then obtain d where "is_chain mem d a (butlast pre)" "is_chain mem c d [last pre]"
    unfolding is_chain_append by blast
  with ne show ?thesis by auto
qed

lemma coalesce_chain:
  assumes first: "firstBlock m = Some 0"
    and chain: "is_chain (physicalMemory m) (totalMemorySize m) 0 bs"
    and blk: "block \<in> set bs"
    and len: "length bs \<le> 10000"
    and naf: "\<And>x y. x \<in> set bs \<Longrightarrow> y \<in> set bs \<Longrightarrow> y = x + size_h (physicalMemory m x)
                \<Longrightarrow> x \<noteq> block \<Longrightarrow> y \<noteq> block
                \<Longrightarrow> \<not> (is_free (physicalMemory m x) \<and> is_free (physicalMemory m y))"
  shows "\<exists>bs'. is_chain (physicalMemory (coalesceBlocks m block)) (totalMemorySize m) 0 bs'
        \<and> no_adjacent_free (physicalMemory (coalesceBlocks m block)) bs'
        \<and> totalMemorySize (coalesceBlocks m block) = totalMemorySize m"
proof -
  define mem where "mem = physicalMemory m"
  define tot where "tot = totalMemorySize m"
  define sz where "sz = (\<lambda>a. size_h (mem a))"
  define fr where "fr = (\<lambda>a. is_free (mem a))"
  note defs = mem_def tot_def sz_def fr_def
  from is_chain_split [OF chain blk] obtain pre post where
    bs: "bs = pre @ block # post" and cpre: "is_chain mem block 0 pre"
    and cpost: "is_chain mem tot (block + sz block) post"
    and bt: "block < tot" and bpos: "0 < sz block"
    unfolding defs by blast
  have pre_lt: "x < block" if "x \<in> set pre" for x
    using is_chain_lower [OF cpre that] by simp
  have post_gt: "block + sz block \<le> x \<and> x < tot" if "x \<in> set post" for x
    using is_chain_lower [OF cpost that] by simp
  have in_bs: "x \<in> set bs \<Longrightarrow> 0 < sz x \<and> x < tot" for x
    using is_chain_mem [OF chain] unfolding defs by blast
  define abs where "abs \<longleftrightarrow> block + sz block < tot \<and> fr (block + sz block)"
  define n where "n = block + sz block"
  define m1 where "m1 = absorb_next m block"
  define mem1 where "mem1 = physicalMemory m1"
  define sz1 where "sz1 = (\<lambda>a. size_h (mem1 a))"
  define post1 where "post1 = (if abs then tl post else post)"
  have sz1: "sz1 a = (if a = block \<and> abs then sz block + sz n else sz a)" for a
    unfolding sz1_def mem1_def m1_def abs_def n_def defs by (simp add: absorb_next_size)
  have fr1: "is_free (mem1 a) = fr a" for a
    unfolding mem1_def m1_def defs by simp
  have tot1: "totalMemorySize m1 = tot" "firstBlock m1 = Some 0"
    unfolding m1_def defs using first by simp_all
  have post1_sub: "set post1 \<subseteq> set post"
    unfolding post1_def by (cases post) auto
  \<comment> \<open>the sequence after absorbing the successor\<close>
  have cpost1: "is_chain mem tot (block + sz1 block) post1"
  proof (cases abs)
    case True
    then have "block + sz block \<noteq> tot" by (simp add: abs_def)
    with cpost obtain post' where p: "post = n # post'" "is_chain mem tot (n + sz n) post'"
      unfolding n_def sz_def by (cases post) auto
    with True show ?thesis by (simp add: post1_def sz1 n_def add.assoc)
  next
    case False
    with cpost show ?thesis by (simp add: post1_def sz1)
  qed
  have head1: "\<not> (block + sz1 block < tot \<and> fr (block + sz1 block))"
  proof (cases abs)
    case True
    then have "block + sz block \<noteq> tot" by (simp add: abs_def)
    with cpost obtain post' where p: "post = n # post'" "is_chain mem tot (n + sz n) post'"
      unfolding n_def sz_def by (cases post) auto
    show ?thesis
    proof
      assume a: "block + sz1 block < tot \<and> fr (block + sz1 block)"
      with True have lt: "n + sz n < tot" and f: "fr (n + sz n)"
        by (simp_all add: sz1 n_def add.assoc)
      from lt p(2) have "n + sz n \<in> set post'" by (cases post') auto
      then have y: "n + sz n \<in> set bs" using bs p(1) by simp
      have x: "n \<in> set bs" using bs p(1) by simp
      have "n \<noteq> block" using bpos by (simp add: n_def)
      moreover have "n + sz n \<noteq> block" using bpos by (simp add: n_def)
      ultimately have "\<not> (fr n \<and> fr (n + sz n))"
        using naf [OF x y] unfolding defs by simp
      moreover from True have "fr n" by (simp add: abs_def n_def)
      ultimately show False using f by simp
    qed
  next
    case False
    then have "sz1 block = sz block" by (simp add: sz1)
    with False show ?thesis by (auto simp: abs_def)
  qed
  have cong1: "is_chain mem1 t a xs = is_chain mem t a xs" if "block \<notin> set xs" for t a xs
    using that by (intro is_chain_cong) (auto simp: sz1 [unfolded sz1_def sz_def] sz_def)
  have block_pre: "block \<notin> set pre" using pre_lt by blast
  have block_post: "block \<notin> set post" using post_gt bpos by fastforce
  have block_post1: "block \<notin> set post1" using block_post post1_sub by blast
  have c1post: "is_chain mem1 tot (block + sz1 block) post1"
    using cpost1 block_post1 by (simp add: cong1)
  have c1pre: "is_chain mem1 block 0 pre"
    using cpre block_pre by (simp add: cong1)
  have sz1pos: "0 < sz1 block" using bpos by (simp add: sz1)
  have c1: "is_chain mem1 tot 0 (pre @ block # post1)"
    unfolding is_chain_append using c1pre c1post bt sz1pos
    by (intro exI [of _ block]) (simp add: sz1_def)
  \<comment> \<open>pairs of the sequence that do not end at the block\<close>
  have pair1: "\<not> (fr x \<and> fr y)"
    if "x \<in> set (pre @ block # post1)" "y \<in> set (pre @ block # post1)" "y = x + sz1 x"
      "y \<noteq> block" for x y
  proof (cases "x = block")
    case True
    from that(2) have "y < tot" using in_bs bs post1_sub by auto
    with True that(3) head1 show ?thesis by simp
  next
    case False
    from that(1,2) have "x \<in> set bs" "y \<in> set bs" using bs post1_sub by auto
    from naf [OF this] that(3,4) False show ?thesis by (simp add: sz1 defs)
  qed
  have res_unfold: "coalesceBlocks m block =
     (case find_prev mem1 tot block (Some 0) 0 of
        None \<Rightarrow> m1
      | Some p \<Rightarrow> if is_free (mem1 p) then coalesceBlocks (merge_prev m1 block p) p else m1)"
    unfolding mem1_def m1_def tot_def using first
    by (subst coalesceBlocks_unfold) simp
  show ?thesis
  proof (cases "pre = []")
    case True
    with cpre have "block = 0" by simp
    then have "find_prev mem1 tot block (Some 0) 0 = None" by (simp add: find_prev_self)
    then have res: "coalesceBlocks m block = m1" by (simp add: res_unfold)
    have "no_adjacent_free mem1 (pre @ block # post1)"
      unfolding no_adjacent_free_def
    proof (intro ballI impI)
      fix x y
      assume x: "x \<in> set (pre @ block # post1)" and y: "y \<in> set (pre @ block # post1)"
        and e: "y = x + size_h (mem1 x)"
      have "y \<noteq> block"
      proof
        assume "y = block"
        with e \<open>block = 0\<close> have "sz1 x = 0" by (auto simp: sz1_def)
        moreover from x have "0 < sz1 x"
          using in_bs bs post1_sub by (auto simp: sz1)
        ultimately show False by simp
      qed
      with pair1 [OF x y] e show "\<not> (is_free (mem1 x) \<and> is_free (mem1 y))"
        by (simp add: fr1 sz1_def)
    qed
    with c1 res show ?thesis
      unfolding mem1_def tot_def using tot1(1) by (intro exI [of _ "pre @ block # post1"]) (simp add: tot_def)
  next
    case False
    define p where "p = last pre"
    define pre' where "pre' = butlast pre"
    from is_chain_last [OF cpre False] have pin: "p \<in> set pre" and pend: "p + sz p = block"
      and cpre': "is_chain mem p 0 pre'" unfolding p_def pre'_def sz_def by simp_all
    have pre_eq: "pre = pre' @ [p]" using False by (simp add: p_def pre'_def)
    have plt: "p < block" using pre_lt pin by simp
    have "length pre \<le> 10000" using len bs by simp
    with find_prev_chain [OF c1pre False, of tot 0] bt
    have fp: "find_prev mem1 tot block (Some 0) 0 = Some p" by (simp add: p_def)
    have pbs: "p \<in> set bs" using pin bs by simp
    show ?thesis
    proof (cases "fr p")
      case nf: False
      with fp have res: "coalesceBlocks m block = m1" by (simp add: res_unfold fr1)
      have "no_adjacent_free mem1 (pre @ block # post1)"
        unfolding no_adjacent_free_def
      proof (intro ballI impI)
        fix x y
        assume x: "x \<in> set (pre @ block # post1)" and y: "y \<in> set (pre @ block # post1)"
          and e: "y = x + size_h (mem1 x)"
        show "\<not> (is_free (mem1 x) \<and> is_free (mem1 y))"
        proof (cases "y = block")
          case True
          have "x \<noteq> block"
          proof
            assume "x = block"
            with e True have "sz1 block = 0" by (simp add: sz1_def)
            with sz1pos show False by simp
          qed
          with e True have "x + sz x = p + sz p" by (simp add: pend sz1 [unfolded sz1_def])
          moreover from x have "x \<in> set bs" using bs post1_sub by auto
          ultimately have "x = p"
            using is_chain_end_inj [OF chain _ pbs] unfolding defs by simp
          with nf show ?thesis by (simp add: fr1)
        next
          case False
          with pair1 [OF x y] e show ?thesis by (simp add: fr1 sz1_def)
        qed
      qed
      with c1 res show ?thesis
        unfolding mem1_def tot_def using tot1(1)
        by (intro exI [of _ "pre @ block # post1"]) (simp add: tot_def)
    next
      case pf: True
      define m3 where "m3 = merge_prev m1 block p"
      define mem3 where "mem3 = physicalMemory m3"
      have sz3: "size_h (mem3 a) = (if a = p then sz p + sz1 block else sz1 a)" for a
        unfolding mem3_def m3_def using plt
        by (simp add: merge_prev_size sz1 [unfolded sz1_def] mem1_def [symmetric] sz1_def)
      have fr3: "is_free (mem3 a) = fr a" for a
        unfolding mem3_def m3_def by (simp add: fr1 [unfolded mem1_def])
      have tot3: "totalMemorySize m3 = tot" "firstBlock m3 = Some 0"
        unfolding m3_def using tot1 by simp_all
      have p_pre': "p \<notin> set pre'" using is_chain_lower [OF cpre'] by fastforce
      have block_pre': "block \<notin> set pre'" using block_pre pre_eq by simp
      have p_post1: "p \<notin> set post1" using post_gt post1_sub plt by fastforce
      have cong3: "is_chain mem3 t a xs = is_chain mem1 t a xs" if "p \<notin> set xs" for t a xs
        using that by (intro is_chain_cong) (auto simp: sz3 sz1_def)
      have c3pre: "is_chain mem3 p 0 pre'"
        using cpre' p_pre' block_pre' by (simp add: cong3 cong1)
      have c3post: "is_chain mem3 tot (p + size_h (mem3 p)) post1"
        using c1post p_post1 pend by (simp add: cong3 sz3 add.assoc [symmetric])
      have c3: "is_chain mem3 tot 0 (pre' @ p # post1)"
        unfolding is_chain_append using c3pre c3post plt bt sz1pos
        by (intro exI [of _ p]) (simp add: sz3)
      \<comment> \<open>the recursive call finds nothing to merge\<close>
      have next3: "\<not> (p + size_h (mem3 p) < totalMemorySize m3
                      \<and> is_free (mem3 (p + size_h (mem3 p))))"
        using head1 pend by (simp add: sz3 fr3 tot3 add.assoc [symmetric])
      have prev3: "find_prev mem3 tot p (Some 0) 0 = None
          \<or> (\<exists>q. find_prev mem3 tot p (Some 0) 0 = Some q \<and> \<not> is_free (mem3 q))"
      proof (cases "pre' = []")
        case True
        with cpre' have "p = 0" by simp
        then show ?thesis by (simp add: find_prev_self)
      next
        case False
        define q where "q = last pre'"
        from is_chain_last [OF cpre' False] have qin: "q \<in> set pre'" and qend: "q + sz q = p"
          unfolding q_def sz_def by simp_all
        have "length pre' \<le> 10000" using len bs pre_eq by simp
        with find_prev_chain [OF c3pre False, of tot 0] plt bt
        have "find_prev mem3 tot p (Some 0) 0 = Some q" by (simp add: q_def)
        moreover have "\<not> fr q"
        proof -
          have "\<not> (is_free (physicalMemory m q) \<and> is_free (physicalMemory m p))"
          proof (rule naf)
            show "q \<in> set bs" using qin bs pre_eq by simp
            show "p \<in> set bs" by (rule pbs)
            show "p = q + size_h (physicalMemory m q)" using qend by (simp add: defs)
            show "q \<noteq> block" using qin block_pre' by blast
            show "p \<noteq> block" using plt by simp
          qed
          with pf show ?thesis by (simp add: defs)
        qed
        ultimately show ?thesis by (simp add: fr3)
      qed
      have "coalesceBlocks m3 p = m3"
        using next3 prev3 unfolding mem3_def
        by (intro coalesceBlocks_noop) (simp_all add: tot3)
      with fp pf have res: "coalesceBlocks m block = m3"
        by (simp add: res_unfold fr1 m3_def)
      have sub3: "set (pre' @ p # post1) \<subseteq> set (pre @ block # post1)"
        using pre_eq by auto
      have "no_adjacent_free mem3 (pre' @ p # post1)"
        unfolding no_adjacent_free_def
      proof (intro ballI impI)
        fix x y
        assume x: "x \<in> set (pre' @ p # post1)" and y: "y \<in> set (pre' @ p # post1)"
          and e: "y = x + size_h (mem3 x)"
        have yb: "y \<noteq> block" using y block_pre' plt block_post1 by auto
        have xb: "x \<noteq> block" using x block_pre' plt block_post1 by auto
        show "\<not> (is_free (mem3 x) \<and> is_free (mem3 y))"
        proof (cases "x = p")
          case True
          from y have "y < tot" using in_bs bs post1_sub pre_eq by auto
          with True e head1 pend show ?thesis
            by (simp add: sz3 fr3 add.assoc [symmetric])
        next
          case False
          from x y have "x \<in> set bs" "y \<in> set bs" using bs post1_sub pre_eq by auto
          from naf [OF this] e False xb yb show ?thesis
            by (simp add: sz3 sz1 fr3 defs)
        qed
      qed
      with c3 res show ?thesis
        unfolding mem3_def tot_def using tot3(1)
        by (intro exI [of _ "pre' @ p # post1"]) (simp add: tot_def)
    qed
  qed
qed

subsection \<open>Evaluating concrete runs\<close>

lemmas run_defs =
  MemoryManager_new_def initializeMemory_def zero_header_def allocate_def deallocate_def
  findFirstFit_def findBestFit_def findWorstFit_def firstFit_loop.simps bestFit_loop.simps
  worstFit_loop.simps better_fit_def worse_fit_def splitBlock_def addToFreeList_def
  removeFromFreeList_def coalesceBlocks.simps find_prev.simps isValidPointer_def
  getHeader_def size_t_add_def size_t_sub_def Let_def

subsection \<open>C9: the Best-Fit scenario\<close>


subsection \<open>C4: deallocation through the address of the first header\<close>

text \<open>What \<^verbatim>\<open>deallocate\<close> refuses, it refuses without touching the state.\<close>

lemma deallocate_refused:
  assumes "\<not> isValidPointer m ptr \<or> getHeader m ptr = None
           \<or> (\<exists>b. getHeader m ptr = Some b \<and> is_free (physicalMemory m b))"
  shows "deallocate H m ptr = (False, m)"
  using assms by (auto simp: deallocate_def)

lemma deallocate_id_refused:
  assumes "idToHeader m bid = None"
  shows "deallocate_id H m bid = (False, m)"
  using assms by (simp add: deallocate_id_def)

text \<open>
  C4: a reference that names no allocated block must be refused. \<^verbatim>\<open>initializeMemory\<close>
  enters the address of the first header itself (offset 0) in \<^verbatim>\<open>addressToHeader\<close>, while
  \<^verbatim>\<open>allocate\<close> hands out and enters the address behind the header. After \<^verbatim>\<open>malloc 100\<close> in a
  fresh arena the only allocation has address 32; \<^verbatim>\<open>deallocate\<close> of address 0, which
  \<^verbatim>\<open>allocate\<close> never returned, is accepted and frees that block.
\<close>

theorem deallocate_first_header_address:
  "MemoryManager_new 32 4096 FIRST_FIT = Some ff_init
   \<and> allocate 32 ff_init 100 = Some (Some 32, ff_malloc1)
   \<and> dom (addressToHeader ff_malloc1) = {0, 32}
   \<and> \<not> is_free (physicalMemory ff_malloc1 0)
   \<and> fst (deallocate 32 ff_malloc1 (Some 0)) = True
   \<and> is_free (physicalMemory (snd (deallocate 32 ff_malloc1 (Some 0))) 0)
   \<and> size_h (physicalMemory (snd (deallocate 32 ff_malloc1 (Some 0))) 0) = 4096
   \<and> idToHeader (snd (deallocate 32 ff_malloc1 (Some 0))) 1 = None"
  by (simp add: ff_init_def ff_malloc1_def run_defs cong: let_weak_cong) auto

subsection \<open>C3: First-Fit follows the free list, not the addresses\<close>







end
